theory Spec2Isabelle
  imports Main "HOL-Library.Sublist" "HOL-Library.Monad_Syntax"
begin

section \<open>The structured representation of a Bril program\<close>

text \<open>
  \<^verbatim>\<open>briltxt.py\<close> works on the JSON form of Bril: dictionaries with the keys
  \<^verbatim>\<open>functions\<close>, \<^verbatim>\<open>imports\<close>, \<^verbatim>\<open>name\<close>, \<^verbatim>\<open>args\<close>, \<^verbatim>\<open>type\<close>, \<^verbatim>\<open>instrs\<close>, \<^verbatim>\<open>op\<close>,
  \<^verbatim>\<open>dest\<close>, \<^verbatim>\<open>value\<close> and \<^verbatim>\<open>label\<close>. The dictionaries the transformer builds are modelled
  by one constructor each:
  \<^item> \<open>Const dest type value\<close> is \<^verbatim>\<open>{'op': 'const', 'dest': .., 'type': .., 'value': ..}\<close>,
  \<^item> \<open>ValueOp dest type op args\<close> is \<^verbatim>\<open>{'op': .., 'dest': .., 'type': .., 'args': [..]}\<close>,
  \<^item> \<open>EffectOp op args\<close> is \<^verbatim>\<open>{'op': .., 'args': [..]}\<close>,
  \<^item> \<open>Label name\<close> is \<^verbatim>\<open>{'label': ..}\<close>,
  \<^item> \<open>FuncItem f\<close> is a function dictionary standing in an \<^verbatim>\<open>instrs\<close> list (what
    \<^verbatim>\<open>def_func\<close> returns),
  \<^item> \<open>Function name args type instrs\<close> is \<^verbatim>\<open>{'name': .., 'instrs': [..]}\<close> with the key
    \<^verbatim>\<open>args\<close> present iff the list is not empty and the key \<^verbatim>\<open>type\<close> present iff the
    option is not \<open>None\<close>.
\<close>

datatype lit = IntLit int | BoolLit bool

datatype arg = Arg (arg_name: string) (arg_type: "string option")

datatype item =
    Const string string lit
  | ValueOp string string string "string list"
  | EffectOp string "string list"
  | Label string
  | FuncItem func
and func =
    Function (name: string) (args: "arg list") (ftype: "string option") (instrs: "item list")

text \<open>A program, with its keys \<^verbatim>\<open>imports\<close> (which may be absent: \<open>None\<close>) and
  \<^verbatim>\<open>functions\<close>.\<close>

record program =
  prog_imports :: "string list option"
  prog_functions :: "func list"

text \<open>
  The ways the code stops without a result. \<open>UnexpectedInput\<close> is Lark's exception for a
  text the grammar does not derive; \<open>IndexError\<close>, \<open>KeyError\<close>, \<open>ValueError\<close> and
  \<open>TypeError\<close> are Python's; \<open>FunctionsDefinedTwice\<close> is the
  \<^verbatim>\<open>RuntimeError('Function(s) defined twice: ...')\<close> with the names it joins;
  \<open>FailedToLoad\<close> is the \<^verbatim>\<open>sys.exit(1)\<close> after an \<^verbatim>\<open>IOError\<close>.
\<close>

datatype error =
    UnexpectedInput
  | IndexError
  | KeyError string
  | ValueError
  | TypeError
  | FunctionsDefinedTwice "string list"
  | FailedToLoad string

section \<open>The grammar\<close>

subsection \<open>Terminals\<close>

text \<open>
  \<^verbatim>\<open>lark.Lark(GRAMMAR)\<close> builds an Earley parser with Lark's dynamic lexer: there is no
  separate tokenizer, and a terminal the parser expects at a position is matched there by
  its regular expression, greedily. An ignored terminal (\<^verbatim>\<open>%ignore WS\<close>,
  \<^verbatim>\<open>%ignore COMMENT\<close>) that matches at a position carries the parser over it. No terminal
  of this grammar starts with a white-space character or with \<^verbatim>\<open>#\<close>, so a terminal is
  matched after everything ignorable has been skipped.

  The character classes are those of Lark's \<^verbatim>\<open>common\<close> grammar, which \<^verbatim>\<open>GRAMMAR\<close> imports:
  \<^verbatim>\<open>LETTER\<close> is \<^verbatim>\<open>"a".."z" | "A".."Z"\<close>, \<^verbatim>\<open>DIGIT\<close> is \<^verbatim>\<open>"0".."9"\<close>, \<^verbatim>\<open>WS\<close> is
  \<^verbatim>\<open>/[ \t\f\r\n]/+\<close>, \<^verbatim>\<open>CNAME\<close> is \<^verbatim>\<open>("_"|LETTER) ("_"|LETTER|DIGIT)*\<close> and
  \<^verbatim>\<open>SIGNED_INT\<close> is \<^verbatim>\<open>["+"|"-"] DIGIT+\<close>.
\<close>

definition LETTER :: "char \<Rightarrow> bool" where
  "LETTER c \<longleftrightarrow> c \<in> set ''abcdefghijklmnopqrstuvwxyzABCDEFGHIJKLMNOPQRSTUVWXYZ''"

definition DIGIT :: "char \<Rightarrow> bool" where
  "DIGIT c \<longleftrightarrow> c \<in> set ''0123456789''"

definition WS :: "char \<Rightarrow> bool" where
  "WS c \<longleftrightarrow> c \<in> set [CHR '' '', CHR 0x09, CHR 0x0C, CHR 0x0D, CHR 0x0A]"

definition cname_start :: "char \<Rightarrow> bool" where
  "cname_start c \<longleftrightarrow> c = CHR ''_'' \<or> LETTER c"

definition cname_char :: "char \<Rightarrow> bool" where
  "cname_char c \<longleftrightarrow> c = CHR ''_'' \<or> LETTER c \<or> DIGIT c"

text \<open>\<^verbatim>\<open>IDENT: ("_"|"%"|LETTER) ("_"|"%"|"."|LETTER|DIGIT)*\<close>\<close>

definition ident_start :: "char \<Rightarrow> bool" where
  "ident_start c \<longleftrightarrow> c = CHR ''_'' \<or> c = CHR ''%'' \<or> LETTER c"

definition ident_char :: "char \<Rightarrow> bool" where
  "ident_char c \<longleftrightarrow> c = CHR ''_'' \<or> c = CHR ''%'' \<or> c = CHR ''.'' \<or> LETTER c \<or> DIGIT c"

text \<open>
  Skipping what is ignored: runs of \<^verbatim>\<open>WS\<close> and comments \<^verbatim>\<open>/#.*/\<close> (the dot does not match
  a line feed, so a comment ends before it, and the line feed is white space).
\<close>

fun ignore :: "string \<Rightarrow> string"
  and ignore_comment :: "string \<Rightarrow> string" where
  "ignore [] = []"
| "ignore (c # cs) =
     (if WS c then ignore cs
      else if c = CHR ''#'' then ignore_comment cs
      else c # cs)"
| "ignore_comment [] = []"
| "ignore_comment (c # cs) = (if c = CHR 0x0A then ignore cs else ignore_comment cs)"

text \<open>
  A terminal given by a class for its first character and a class for the others: the
  greedy match and the text after it.
\<close>

definition scan :: "(char \<Rightarrow> bool) \<Rightarrow> (char \<Rightarrow> bool) \<Rightarrow> string \<Rightarrow> (string \<times> string) option" where
  "scan start cont s =
     (case ignore s of
        [] \<Rightarrow> None
      | c # cs \<Rightarrow> if start c then Some (c # takeWhile cont cs, dropWhile cont cs) else None)"

definition CNAME :: "string \<Rightarrow> (string \<times> string) option" where
  "CNAME = scan cname_start cname_char"

definition IDENT :: "string \<Rightarrow> (string \<times> string) option" where
  "IDENT = scan ident_start ident_char"

definition SIGNED_INT :: "string \<Rightarrow> (string \<times> string) option" where
  "SIGNED_INT s =
     (case ignore s of
        [] \<Rightarrow> None
      | c # cs \<Rightarrow>
          if c = CHR ''+'' \<or> c = CHR ''-'' then
            (if takeWhile DIGIT cs = [] then None
             else Some (c # takeWhile DIGIT cs, dropWhile DIGIT cs))
          else if DIGIT c then Some (c # takeWhile DIGIT cs, dropWhile DIGIT cs)
          else None)"

text \<open>A literal string of the grammar, such as \<^verbatim>\<open>"const"\<close> or \<^verbatim>\<open>";"\<close>: only the rest is kept,
  since Lark filters these anonymous tokens out of the tree.\<close>

definition keyword :: "string \<Rightarrow> string \<Rightarrow> string option" where
  "keyword k s = (if prefix k (ignore s) then Some (drop (length k) (ignore s)) else None)"

text \<open>\<^verbatim>\<open>BOOL: "true" | "false"\<close>\<close>

definition BOOL :: "string \<Rightarrow> (string \<times> string) option" where
  "BOOL s =
     (case keyword ''true'' s of
        Some r \<Rightarrow> Some (''true'', r)
      | None \<Rightarrow> (case keyword ''false'' s of Some r \<Rightarrow> Some (''false'', r) | None \<Rightarrow> None))"

subsection \<open>Parse trees\<close>

text \<open>Lark's tree: a rule name (or alias) with children, or a token with its terminal's
  name and its text.\<close>

datatype tree = Tree string "tree list" | Token string string

subsection \<open>Rules with one derivation\<close>

text \<open>
  Each rule below is a sequence of terminals in which the next terminal decides where a
  repetition stops (\<^verbatim>\<open>IDENT*\<close> is followed by \<^verbatim>\<open>";"\<close>, \<^verbatim>\<open>arg*\<close> by \<^verbatim>\<open>"{"\<close> or \<^verbatim>\<open>":"\<close>, and
  neither can start an \<^verbatim>\<open>IDENT\<close> or an \<^verbatim>\<open>arg\<close>), so at a given position it has at most one
  derivation: the result is an option.
\<close>

text \<open>\<^verbatim>\<open>type: CNAME\<close>\<close>

definition p_type :: "string \<Rightarrow> (tree \<times> string) option" where
  "p_type s =
     (case CNAME s of
        None \<Rightarrow> None
      | Some (t, r) \<Rightarrow> Some (Tree ''type'' [Token ''CNAME'' t], r))"

text \<open>\<^verbatim>\<open>lit: SIGNED_INT -> int | BOOL -> bool\<close>\<close>

definition p_lit :: "string \<Rightarrow> (tree \<times> string) option" where
  "p_lit s =
     (case SIGNED_INT s of
        Some (n, r) \<Rightarrow> Some (Tree ''int'' [Token ''SIGNED_INT'' n], r)
      | None \<Rightarrow>
          (case BOOL s of
             Some (b, r) \<Rightarrow> Some (Tree ''bool'' [Token ''BOOL'' b], r)
           | None \<Rightarrow> None))"

text \<open>\<^verbatim>\<open>IDENT*\<close>: the identifiers up to the first position where none starts. The bound is
  the number of characters left, and each identifier takes at least one.\<close>

fun idents_upto :: "nat \<Rightarrow> string \<Rightarrow> tree list \<times> string" where
  "idents_upto 0 s = ([], s)"
| "idents_upto (Suc n) s =
     (case IDENT s of
        None \<Rightarrow> ([], s)
      | Some (x, r) \<Rightarrow> (case idents_upto n r of (xs, r') \<Rightarrow> (Token ''IDENT'' x # xs, r')))"

definition idents :: "string \<Rightarrow> tree list \<times> string" where
  "idents s = idents_upto (length s) s"

text \<open>\<^verbatim>\<open>const.4: IDENT ":" type "=" "const" lit ";"\<close>\<close>

definition p_const :: "string \<Rightarrow> (tree \<times> string) option" where
  "p_const s = do {
     (d, r1) \<leftarrow> IDENT s;
     r2 \<leftarrow> keyword '':'' r1;
     (t, r3) \<leftarrow> p_type r2;
     r4 \<leftarrow> keyword ''='' r3;
     r5 \<leftarrow> keyword ''const'' r4;
     (v, r6) \<leftarrow> p_lit r5;
     r7 \<leftarrow> keyword '';'' r6;
     Some (Tree ''const'' [Token ''IDENT'' d, t, v], r7)
   }"

text \<open>\<^verbatim>\<open>vop.3: IDENT ":" type "=" CNAME IDENT* ";"\<close>\<close>

definition p_vop :: "string \<Rightarrow> (tree \<times> string) option" where
  "p_vop s = do {
     (d, r1) \<leftarrow> IDENT s;
     r2 \<leftarrow> keyword '':'' r1;
     (t, r3) \<leftarrow> p_type r2;
     r4 \<leftarrow> keyword ''='' r3;
     (opn, r5) \<leftarrow> CNAME r4;
     (xs, r6) \<leftarrow> Some (idents r5);
     r7 \<leftarrow> keyword '';'' r6;
     Some (Tree ''vop'' ([Token ''IDENT'' d, t, Token ''CNAME'' opn] @ xs), r7)
   }"

text \<open>\<^verbatim>\<open>eop.2: CNAME IDENT* ";"\<close>\<close>

definition p_eop :: "string \<Rightarrow> (tree \<times> string) option" where
  "p_eop s = do {
     (opn, r1) \<leftarrow> CNAME s;
     (xs, r2) \<leftarrow> Some (idents r1);
     r3 \<leftarrow> keyword '';'' r2;
     Some (Tree ''eop'' (Token ''CNAME'' opn # xs), r3)
   }"

text \<open>\<^verbatim>\<open>label.1: IDENT ":"\<close>\<close>

definition p_label :: "string \<Rightarrow> (tree \<times> string) option" where
  "p_label s = do {
     (n, r1) \<leftarrow> IDENT s;
     r2 \<leftarrow> keyword '':'' r1;
     Some (Tree ''label'' [Token ''IDENT'' n], r2)
   }"

text \<open>\<^verbatim>\<open>arg: IDENT | "(" IDENT ":" type ")"\<close> (an \<^verbatim>\<open>IDENT\<close> does not start with a
  parenthesis, so at most one alternative applies).\<close>

definition p_arg :: "string \<Rightarrow> (tree \<times> string) option" where
  "p_arg s =
     (case IDENT s of
        Some (x, r) \<Rightarrow> Some (Tree ''arg'' [Token ''IDENT'' x], r)
      | None \<Rightarrow> do {
          r1 \<leftarrow> keyword ''('' s;
          (x, r2) \<leftarrow> IDENT r1;
          r3 \<leftarrow> keyword '':'' r2;
          (t, r4) \<leftarrow> p_type r3;
          r5 \<leftarrow> keyword '')'' r4;
          Some (Tree ''arg'' [Token ''IDENT'' x, t], r5)
        })"

fun args_upto :: "nat \<Rightarrow> string \<Rightarrow> tree list \<times> string" where
  "args_upto 0 s = ([], s)"
| "args_upto (Suc n) s =
     (case p_arg s of
        None \<Rightarrow> ([], s)
      | Some (a, r) \<Rightarrow> (case args_upto n r of (as, r') \<Rightarrow> (a # as, r')))"

text \<open>The part of \<^verbatim>\<open>func\<close> before the instructions, for its two alternatives
  \<^verbatim>\<open>CNAME arg* "{" instr* "}"\<close> and \<^verbatim>\<open>CNAME arg* ":" type "{" instr* "}"\<close>: the
  children so far and the text after the brace.\<close>

definition p_header :: "string \<Rightarrow> (tree list \<times> string) option" where
  "p_header s = do {
     (n, r1) \<leftarrow> CNAME s;
     (as, r2) \<leftarrow> Some (args_upto (length r1) r1);
     (case keyword ''{'' r2 of
        Some r3 \<Rightarrow> Some (Token ''CNAME'' n # as, r3)
      | None \<Rightarrow> do {
          r3 \<leftarrow> keyword '':'' r2;
          (t, r4) \<leftarrow> p_type r3;
          r5 \<leftarrow> keyword ''{'' r4;
          Some (Token ''CNAME'' n # as @ [t], r5)
        })
   }"

text \<open>\<^verbatim>\<open>imp: "import" CNAME ";"\<close>\<close>

definition p_imp :: "string \<Rightarrow> (tree \<times> string) option" where
  "p_imp s = do {
     r1 \<leftarrow> keyword ''import'' s;
     (m, r2) \<leftarrow> CNAME r1;
     r3 \<leftarrow> keyword '';'' r2;
     Some (Tree ''imp'' [Token ''CNAME'' m], r3)
   }"

fun imps_upto :: "nat \<Rightarrow> string \<Rightarrow> tree list \<times> string" where
  "imps_upto 0 s = ([], s)"
| "imps_upto (Suc n) s =
     (case p_imp s of
        None \<Rightarrow> ([], s)
      | Some (i, r) \<Rightarrow> (case imps_upto n r of (is, r') \<Rightarrow> (i # is, r')))"

subsection \<open>Every rule consumes text\<close>

lemma ignore_length:
  "length (ignore s) \<le> length s" "length (ignore_comment s) \<le> length s"
  by (induction s and s rule: ignore_ignore_comment.induct) auto

lemma scan_shorter: "scan a b s = Some (x, r) \<Longrightarrow> length r < length s"
proof -
  assume h: "scan a b s = Some (x, r)"
  then obtain c cs where ig: "ignore s = c # cs" and r: "r = dropWhile b cs"
    by (auto simp: scan_def split: list.splits if_splits)
  have "length r \<le> length cs" using r by (simp add: length_dropWhile_le)
  also have "\<dots> < length (ignore s)" using ig by simp
  also have "\<dots> \<le> length s" by (rule ignore_length)
  finally show ?thesis .
qed

lemma keyword_shorter: "keyword k s = Some r \<Longrightarrow> length r + length k \<le> length s"
  using ignore_length(1)[of s]
  by (auto simp: keyword_def prefix_def split: if_splits)

lemma p_type_shorter: "p_type s = Some (t, r) \<Longrightarrow> length r < length s"
  by (auto simp: p_type_def CNAME_def split: option.splits dest: scan_shorter)

lemma p_arg_shorter: "p_arg s = Some (t, r) \<Longrightarrow> length r < length s"
  by (fastforce simp: p_arg_def IDENT_def split: option.splits Option.bind_splits
      dest: scan_shorter keyword_shorter p_type_shorter)

lemma args_upto_shorter: "args_upto n s = (as, r) \<Longrightarrow> length r \<le> length s"
  by (induction n s arbitrary: as r rule: args_upto.induct)
     (fastforce split: option.splits prod.splits dest: p_arg_shorter)+

lemma p_header_shorter: "p_header s = Some (h, r) \<Longrightarrow> length r < length s"
  by (fastforce simp: p_header_def CNAME_def split: option.splits Option.bind_splits prod.splits
      dest: scan_shorter keyword_shorter p_type_shorter args_upto_shorter)

subsection \<open>Rules with several derivations\<close>

text \<open>
  \<^verbatim>\<open>?instr: def_func | const | vop | eop | label\<close>, \<^verbatim>\<open>def_func: "def" func\<close>,
  \<^verbatim>\<open>func: CNAME arg* "{" instr* "}" | CNAME arg* ":" type "{" instr* "}"\<close>.

  One text can have several derivations: \<^verbatim>\<open>x: bool = const true;\<close> is a \<^verbatim>\<open>const\<close>
  and also a \<^verbatim>\<open>vop\<close> whose operation is named \<^verbatim>\<open>const\<close>. So these parsers return the
  list of all derivations at a position, each with the text after it. The alternatives
  of \<^verbatim>\<open>instr\<close> are listed by falling rule priority, \<^verbatim>\<open>const.4\<close>, \<^verbatim>\<open>vop.3\<close>,
  \<^verbatim>\<open>eop.2\<close>, \<^verbatim>\<open>label.1\<close>, then \<^verbatim>\<open>def_func\<close>, which has none. The question mark inlines
  \<^verbatim>\<open>instr\<close>: the tree of the alternative stands for it.

  The test \<open>length r < length s\<close> in the repetitions holds for every derivation (each
  instruction and each function consumes text); it is written out so that the recursion
  is well-founded by its form.
\<close>

definition alt :: "'a option \<Rightarrow> 'a list" where
  "alt x = (case x of None \<Rightarrow> [] | Some y \<Rightarrow> [y])"

function p_instr :: "string \<Rightarrow> (tree \<times> string) list"
  and p_func :: "string \<Rightarrow> (tree \<times> string) list"
  and p_instrs :: "string \<Rightarrow> (tree list \<times> string) list" where
  "p_instr s =
     alt (p_const s) @ alt (p_vop s) @ alt (p_eop s) @ alt (p_label s) @
     (case keyword ''def'' s of
        None \<Rightarrow> []
      | Some r \<Rightarrow> map (\<lambda>(f, r'). (Tree ''def_func'' [f], r')) (p_func r))"
| "p_func s =
     (case p_header s of
        None \<Rightarrow> []
      | Some (h, r) \<Rightarrow>
          concat (map (\<lambda>(is, r'). case keyword ''}'' r' of
                                     None \<Rightarrow> []
                                   | Some r'' \<Rightarrow> [(Tree ''func'' (h @ is), r'')])
                      (p_instrs r)))"
| "p_instrs s =
     ([], s) #
     concat (map (\<lambda>(i, r). if length r < length s
                             then map (\<lambda>(is, r'). (i # is, r')) (p_instrs r) else [])
                 (p_instr s))"
  by pat_completeness auto
termination
proof (relation "measure (\<lambda>x. case x of Inl s \<Rightarrow> 3 * length s
                                 | Inr (Inl s) \<Rightarrow> 3 * length s + 2
                                 | Inr (Inr s) \<Rightarrow> 3 * length s + 1)", goal_cases)
  case (2 s r)
  then show ?case using keyword_shorter [of "''def''" s r] by simp
next
  case (3 s hr h r)
  then show ?case using p_header_shorter [of s h r] by simp
qed simp_all

declare p_instr.simps [simp del] p_func.simps [simp del] p_instrs.simps [simp del]

text \<open>\<^verbatim>\<open>func*\<close>\<close>

function p_funcs :: "string \<Rightarrow> (tree list \<times> string) list" where
  "p_funcs s =
     ([], s) #
     concat (map (\<lambda>(f, r). if length r < length s
                             then map (\<lambda>(fs, r'). (f # fs, r')) (p_funcs r) else [])
                 (p_func s))"
  by pat_completeness auto
termination
  by (relation "measure length") simp_all

declare p_funcs.simps [simp del]

text \<open>
  \<^verbatim>\<open>start: imp* func*\<close>, up to the end of the text. An \<^verbatim>\<open>imp\<close> ends with \<^verbatim>\<open>";"\<close> where a
  \<^verbatim>\<open>func\<close> starting with the same characters needs \<^verbatim>\<open>"{"\<close> or \<^verbatim>\<open>":"\<close>, so the imports
  are the longest run of \<^verbatim>\<open>imp\<close>. \<open>parses\<close> lists every derivation of the whole text.
\<close>

definition parses :: "string \<Rightarrow> tree list" where
  "parses txt =
     (case imps_upto (length txt) txt of (is, r) \<Rightarrow>
        concat (map (\<lambda>(fs, r'). if ignore r' = [] then [Tree ''start'' (is @ fs)] else [])
                    (p_funcs r)))"

text \<open>
  \<^verbatim>\<open>parser.parse(txt)\<close>: Lark raises when the text has no derivation, and returns one
  tree otherwise. Where there are several, the model takes the first in the order above,
  which prefers the alternative of higher priority at the first instruction where two
  derivations differ.
\<close>

definition parse :: "string \<Rightarrow> error + tree" where
  "parse txt = (case parses txt of [] \<Rightarrow> Inl UnexpectedInput | t # _ \<Rightarrow> Inr t)"

section \<open>The transformer\<close>

text \<open>
  \<^verbatim>\<open>JSONTransformer\<close> is a \<^verbatim>\<open>lark.Transformer\<close>: it visits the tree bottom-up and
  replaces each subtree by what the method named after its rule returns for the list of
  its (already replaced) children; a rule with no method (\<^verbatim>\<open>arg\<close>) stays a tree. The
  children are Python values of several kinds, which \<open>val\<close> tags.
\<close>

datatype val =
    VToken string string
  | VTree string "val list"
  | VStr string
  | VInt int
  | VBool bool
  | VInstr item
  | VFunc func
  | VData program

text \<open>\<^verbatim>\<open>items.pop(0)\<close> raises \<^verbatim>\<open>IndexError\<close> on an empty list.\<close>

definition pop0 :: "val list \<Rightarrow> error + (val \<times> val list)" where
  "pop0 items = (case items of [] \<Rightarrow> Inl IndexError | x # xs \<Rightarrow> Inr (x, xs))"

text \<open>
  \<^verbatim>\<open>str(x)\<close> for a token (a subclass of \<^verbatim>\<open>str\<close>) or a string. The grammar puts nothing
  else where the transformer calls \<^verbatim>\<open>str\<close> or stores a name; for a value of another kind
  the model stops with \<open>TypeError\<close>, where Python would go on with a value that is outside
  the data model.
\<close>

fun str_of :: "val \<Rightarrow> error + string" where
  "str_of (VToken k s) = Inr s"
| "str_of (VStr s) = Inr s"
| "str_of _ = Inl TypeError"

fun strs_of :: "val list \<Rightarrow> error + string list" where
  "strs_of [] = Inr []"
| "strs_of (x # xs) =
     (case str_of x of
        Inl e \<Rightarrow> Inl e
      | Inr s \<Rightarrow> (case strs_of xs of Inl e \<Rightarrow> Inl e | Inr ss \<Rightarrow> Inr (s # ss)))"

text \<open>\<^verbatim>\<open>int(str(items[0]))\<close> on the text of a \<^verbatim>\<open>SIGNED_INT\<close>: an optional sign and decimal
  digits; anything else is a \<^verbatim>\<open>ValueError\<close>.\<close>

definition digit_val :: "char \<Rightarrow> nat" where
  "digit_val c = of_char c - 48"

definition nat_of_digits :: "string \<Rightarrow> nat" where
  "nat_of_digits ds = foldl (\<lambda>a c. 10 * a + digit_val c) 0 ds"

definition py_int :: "string \<Rightarrow> error + int" where
  "py_int s =
     (let ds = (case s of [] \<Rightarrow> [] | c # cs \<Rightarrow> if c = CHR ''+'' \<or> c = CHR ''-'' then cs else s)
      in if ds = [] \<or> \<not> list_all DIGIT ds then Inl ValueError
         else Inr (case s of
                     [] \<Rightarrow> 0
                   | c # cs \<Rightarrow> if c = CHR ''-'' then - int (nat_of_digits ds)
                               else int (nat_of_digits ds)))"

definition t_int :: "val list \<Rightarrow> error + val" where
  "t_int items =
     (case items of
        [] \<Rightarrow> Inl IndexError
      | x # _ \<Rightarrow> (case str_of x of
                    Inl e \<Rightarrow> Inl e
                  | Inr s \<Rightarrow> (case py_int s of Inl e \<Rightarrow> Inl e | Inr n \<Rightarrow> Inr (VInt n))))"

definition t_bool :: "val list \<Rightarrow> error + val" where
  "t_bool items =
     (case items of
        [] \<Rightarrow> Inl IndexError
      | x # _ \<Rightarrow> (case str_of x of
                    Inl e \<Rightarrow> Inl e
                  | Inr s \<Rightarrow> if s = ''true'' then Inr (VBool True) else Inr (VBool False)))"

definition t_type :: "val list \<Rightarrow> error + val" where
  "t_type items =
     (case items of
        [] \<Rightarrow> Inl IndexError
      | x # _ \<Rightarrow> (case str_of x of Inl e \<Rightarrow> Inl e | Inr s \<Rightarrow> Inr (VStr s)))"

text \<open>\<^verbatim>\<open>imp\<close> and \<^verbatim>\<open>def_func\<close> both return \<^verbatim>\<open>items.pop(0)\<close>: the module name's token, and
  the dictionary of the nested function.\<close>

definition t_imp :: "val list \<Rightarrow> error + val" where
  "t_imp items = (case pop0 items of Inl e \<Rightarrow> Inl e | Inr (m, _) \<Rightarrow> Inr m)"

definition t_def_func :: "val list \<Rightarrow> error + val" where
  "t_def_func items = (case pop0 items of Inl e \<Rightarrow> Inl e | Inr (f, _) \<Rightarrow> Inr f)"

text \<open>The value of a \<^verbatim>\<open>const\<close> is what \<^verbatim>\<open>int\<close> or \<^verbatim>\<open>bool\<close> returned.\<close>

fun lit_of :: "val \<Rightarrow> error + lit" where
  "lit_of (VInt n) = Inr (IntLit n)"
| "lit_of (VBool b) = Inr (BoolLit b)"
| "lit_of _ = Inl TypeError"

definition t_const :: "val list \<Rightarrow> error + val" where
  "t_const items =
     (case pop0 items of Inl e \<Rightarrow> Inl e | Inr (dest, items1) \<Rightarrow>
     (case pop0 items1 of Inl e \<Rightarrow> Inl e | Inr (ty, items2) \<Rightarrow>
     (case pop0 items2 of Inl e \<Rightarrow> Inl e | Inr (v, items3) \<Rightarrow>
     (case str_of dest of Inl e \<Rightarrow> Inl e | Inr d \<Rightarrow>
     (case str_of ty of Inl e \<Rightarrow> Inl e | Inr t \<Rightarrow>
     (case lit_of v of Inl e \<Rightarrow> Inl e | Inr l \<Rightarrow>
        Inr (VInstr (Const d t l))))))))"

definition t_vop :: "val list \<Rightarrow> error + val" where
  "t_vop items =
     (case pop0 items of Inl e \<Rightarrow> Inl e | Inr (dest, items1) \<Rightarrow>
     (case pop0 items1 of Inl e \<Rightarrow> Inl e | Inr (ty, items2) \<Rightarrow>
     (case pop0 items2 of Inl e \<Rightarrow> Inl e | Inr (opn, items3) \<Rightarrow>
     (case str_of opn of Inl e \<Rightarrow> Inl e | Inr opname \<Rightarrow>
     (case str_of dest of Inl e \<Rightarrow> Inl e | Inr d \<Rightarrow>
     (case str_of ty of Inl e \<Rightarrow> Inl e | Inr t \<Rightarrow>
     (case strs_of items3 of Inl e \<Rightarrow> Inl e | Inr as \<Rightarrow>
        Inr (VInstr (ValueOp d t opname as)))))))))"

definition t_eop :: "val list \<Rightarrow> error + val" where
  "t_eop items =
     (case pop0 items of Inl e \<Rightarrow> Inl e | Inr (opn, items1) \<Rightarrow>
     (case str_of opn of Inl e \<Rightarrow> Inl e | Inr opname \<Rightarrow>
     (case strs_of items1 of Inl e \<Rightarrow> Inl e | Inr as \<Rightarrow>
        Inr (VInstr (EffectOp opname as)))))"

definition t_label :: "val list \<Rightarrow> error + val" where
  "t_label items =
     (case pop0 items of Inl e \<Rightarrow> Inl e | Inr (n, _) \<Rightarrow>
     (case str_of n of Inl e \<Rightarrow> Inl e | Inr l \<Rightarrow> Inr (VInstr (Label l))))"

text \<open>
  \<^verbatim>\<open>func\<close>. The loop pops the leading \<^verbatim>\<open>arg\<close> trees, guarded by \<^verbatim>\<open>len(items) > 0\<close>; an
  argument is \<^verbatim>\<open>dict(name=arg[0], type=arg[1] if len(arg) > 1 else None)\<close>.
\<close>

definition mk_arg :: "val list \<Rightarrow> error + arg" where
  "mk_arg cs =
     (case cs of
        [] \<Rightarrow> Inl IndexError
      | a0 # rest \<Rightarrow>
          (case str_of a0 of Inl e \<Rightarrow> Inl e | Inr n \<Rightarrow>
          (case rest of
             [] \<Rightarrow> Inr (Arg n None)
           | a1 # _ \<Rightarrow> (case str_of a1 of Inl e \<Rightarrow> Inl e | Inr t \<Rightarrow> Inr (Arg n (Some t))))))"

fun pop_args :: "val list \<Rightarrow> error + (arg list \<times> val list)" where
  "pop_args (VTree d cs # items) =
     (if d = ''arg'' then
        (case mk_arg cs of Inl e \<Rightarrow> Inl e | Inr a \<Rightarrow>
        (case pop_args items of Inl e \<Rightarrow> Inl e | Inr (as, items') \<Rightarrow> Inr (a # as, items')))
      else Inr ([], VTree d cs # items))"
| "pop_args items = Inr ([], items)"

text \<open>
  \<^verbatim>\<open>function_type = items.pop(0) if type(items[0]) == str else None\<close>: the subscript
  \<^verbatim>\<open>items[0]\<close> is not guarded, and raises \<^verbatim>\<open>IndexError\<close> when nothing is left after the
  name and the arguments. Only what \<^verbatim>\<open>type\<close> returned has the type \<^verbatim>\<open>str\<close> itself (a
  token is of a subclass, an instruction is a dictionary).
\<close>

definition pop_type :: "val list \<Rightarrow> error + (string option \<times> val list)" where
  "pop_type items =
     (case items of
        [] \<Rightarrow> Inl IndexError
      | VStr t # rest \<Rightarrow> Inr (Some t, rest)
      | _ # _ \<Rightarrow> Inr (None, items))"

text \<open>What is left becomes \<^verbatim>\<open>instrs\<close>: the dictionaries of instructions and labels, and
  those of nested functions.\<close>

fun as_item :: "val \<Rightarrow> error + item" where
  "as_item (VInstr i) = Inr i"
| "as_item (VFunc f) = Inr (FuncItem f)"
| "as_item _ = Inl TypeError"

fun as_items :: "val list \<Rightarrow> error + item list" where
  "as_items [] = Inr []"
| "as_items (x # xs) =
     (case as_item x of
        Inl e \<Rightarrow> Inl e
      | Inr i \<Rightarrow> (case as_items xs of Inl e \<Rightarrow> Inl e | Inr is \<Rightarrow> Inr (i # is)))"

definition t_func :: "val list \<Rightarrow> error + val" where
  "t_func items =
     (case pop0 items of Inl e \<Rightarrow> Inl e | Inr (nm, items1) \<Rightarrow>
     (case pop_args items1 of Inl e \<Rightarrow> Inl e | Inr (as, items2) \<Rightarrow>
     (case pop_type items2 of Inl e \<Rightarrow> Inl e | Inr (function_type, items3) \<Rightarrow>
     (case str_of nm of Inl e \<Rightarrow> Inl e | Inr n \<Rightarrow>
     (case as_items items3 of Inl e \<Rightarrow> Inl e | Inr is \<Rightarrow>
        Inr (VFunc (Function n as function_type is)))))))"

text \<open>\<^verbatim>\<open>start\<close>: the leading tokens are the imports, the rest are the functions; the key
  \<^verbatim>\<open>imports\<close> is set only when there is an import.\<close>

fun pop_tokens :: "val list \<Rightarrow> string list \<times> val list" where
  "pop_tokens (VToken k s # items) = (case pop_tokens items of (ms, items') \<Rightarrow> (s # ms, items'))"
| "pop_tokens items = ([], items)"

fun as_funcs :: "val list \<Rightarrow> error + func list" where
  "as_funcs [] = Inr []"
| "as_funcs (VFunc f # xs) = (case as_funcs xs of Inl e \<Rightarrow> Inl e | Inr fs \<Rightarrow> Inr (f # fs))"
| "as_funcs (_ # xs) = Inl TypeError"

definition t_start :: "val list \<Rightarrow> error + val" where
  "t_start items =
     (case pop_tokens items of (ims, items') \<Rightarrow>
     (case as_funcs items' of Inl e \<Rightarrow> Inl e | Inr fs \<Rightarrow>
        Inr (VData \<lparr>prog_imports = (if length ims > 0 then Some ims else None),
                    prog_functions = fs\<rparr>)))"

definition callback :: "string \<Rightarrow> val list \<Rightarrow> error + val" where
  "callback rule items =
     (if rule = ''start'' then t_start items
      else if rule = ''imp'' then t_imp items
      else if rule = ''func'' then t_func items
      else if rule = ''def_func'' then t_def_func items
      else if rule = ''const'' then t_const items
      else if rule = ''vop'' then t_vop items
      else if rule = ''eop'' then t_eop items
      else if rule = ''label'' then t_label items
      else if rule = ''int'' then t_int items
      else if rule = ''bool'' then t_bool items
      else if rule = ''type'' then t_type items
      else Inr (VTree rule items))"

text \<open>The first exception among the children stops the visit.\<close>

fun collect :: "(error + 'a) list \<Rightarrow> error + 'a list" where
  "collect [] = Inr []"
| "collect (Inl e # rs) = Inl e"
| "collect (Inr x # rs) = (case collect rs of Inl e \<Rightarrow> Inl e | Inr xs \<Rightarrow> Inr (x # xs))"

fun transform :: "tree \<Rightarrow> error + val" where
  "transform (Token k s) = Inr (VToken k s)"
| "transform (Tree rule cs) =
     (case collect (map transform cs) of
        Inl e \<Rightarrow> Inl e
      | Inr items \<Rightarrow> callback rule items)"

section \<open>\<^verbatim>\<open>parse_bril\<close>\<close>

text \<open>
  \<^verbatim>\<open>dups = [f for f in function_names if f in unique and not unique.add(f)]\<close> with
  \<^verbatim>\<open>unique = set()\<close>. Python's \<^verbatim>\<open>and\<close> evaluates \<^verbatim>\<open>unique.add(f)\<close> only when
  \<^verbatim>\<open>f in unique\<close> holds; \<^verbatim>\<open>add\<close> returns \<^verbatim>\<open>None\<close>, so then the condition is true and the
  name is kept. \<open>find_dups names unique\<close> is the comprehension run over \<open>names\<close> from the
  set \<open>unique\<close>.
\<close>

fun find_dups :: "string list \<Rightarrow> string set \<Rightarrow> string list" where
  "find_dups [] unique = []"
| "find_dups (f # fs) unique =
     (if f \<in> unique then f # find_dups fs (insert f unique) else find_dups fs unique)"

text \<open>The result is the data that \<^verbatim>\<open>json.dumps\<close> writes out.\<close>

definition parse_bril :: "string \<Rightarrow> error + program" where
  "parse_bril txt =
     (case parse txt of Inl e \<Rightarrow> Inl e | Inr tree \<Rightarrow>
     (case transform tree of
        Inl e \<Rightarrow> Inl e
      | Inr (VData data) \<Rightarrow>
          (let function_names = map name (prog_functions data);
               dups = find_dups function_names {}
           in if length dups > 0 then Inl (FunctionsDefinedTwice dups) else Inr data)
      | Inr _ \<Rightarrow> Inl TypeError))"

section \<open>The pretty-printer\<close>

text \<open>\<^verbatim>\<open>str(n)\<close> for an integer: its decimal digits, after a minus sign when negative.\<close>

definition digit_char :: "nat \<Rightarrow> char" where
  "digit_char d = char_of (48 + d)"

fun str_nat :: "nat \<Rightarrow> string" where
  "str_nat n = (if n < 10 then [digit_char n] else str_nat (n div 10) @ [digit_char (n mod 10)])"

declare str_nat.simps [simp del]

definition str_int :: "int \<Rightarrow> string" where
  "str_int i = (if i < 0 then CHR ''-'' # str_nat (nat (- i)) else str_nat (nat i))"

text \<open>\<^verbatim>\<open>str(instr['value']).lower()\<close>: \<^verbatim>\<open>str(True)\<close> is \<^verbatim>\<open>'True'\<close>.\<close>

fun str_lower :: "lit \<Rightarrow> string" where
  "str_lower (IntLit n) = str_int n"
| "str_lower (BoolLit b) = (if b then ''true'' else ''false'')"

text \<open>\<^verbatim>\<open>sep.join(xs)\<close>\<close>

fun join :: "string \<Rightarrow> string list \<Rightarrow> string" where
  "join sep [] = []"
| "join sep [x] = x"
| "join sep (x # y # ys) = x @ sep @ join sep (y # ys)"

text \<open>
  \<^verbatim>\<open>instr_to_string\<close> tests \<^verbatim>\<open>instr['op'] == 'const'\<close> first, then \<^verbatim>\<open>'dest' in instr\<close>. A
  dictionary without the key \<^verbatim>\<open>op\<close> (a label, a nested function) raises \<^verbatim>\<open>KeyError\<close>
  there; an operation that is named \<^verbatim>\<open>const\<close> and is not a constant takes the first
  branch and raises at the first key it lacks (\<^verbatim>\<open>value\<close> for a value operation,
  \<^verbatim>\<open>dest\<close> for an effect operation).
\<close>

fun instr_to_string :: "item \<Rightarrow> error + string" where
  "instr_to_string (Const dest ty v) =
     Inr (dest @ '': '' @ ty @ '' = const '' @ str_lower v)"
| "instr_to_string (ValueOp dest ty opn as) =
     (if opn = ''const'' then Inl (KeyError ''value'')
      else Inr (dest @ '': '' @ ty @ '' = '' @ opn @ '' '' @ join '' '' as))"
| "instr_to_string (EffectOp opn as) =
     (if opn = ''const'' then Inl (KeyError ''dest'')
      else Inr (opn @ '' '' @ join '' '' as))"
| "instr_to_string (Label l) = Inl (KeyError ''op'')"
| "instr_to_string (FuncItem f) = Inl (KeyError ''op'')"

text \<open>
  Standard output is the list of the lines printed so far; each \<^verbatim>\<open>print\<close> appends one.
  A printing function returns the output and the exception that stopped it, if any.
\<close>

type_synonym stdout = "string list"

definition print_instr :: "item \<Rightarrow> stdout \<Rightarrow> stdout \<times> error option" where
  "print_instr instr out =
     (case instr_to_string instr of
        Inl e \<Rightarrow> (out, Some e)
      | Inr s \<Rightarrow> (out @ [''  '' @ s @ '';''], None))"

fun print_label :: "item \<Rightarrow> stdout \<Rightarrow> stdout \<times> error option" where
  "print_label (Label l) out = (out @ [l @ '':''], None)"
| "print_label _ out = (out, Some (KeyError ''label''))"

text \<open>\<^verbatim>\<open>'label' in instr_or_label\<close>\<close>

fun has_label :: "item \<Rightarrow> bool" where
  "has_label (Label l) = True"
| "has_label _ = False"

fun print_items :: "item list \<Rightarrow> stdout \<Rightarrow> stdout \<times> error option" where
  "print_items [] out = (out, None)"
| "print_items (instr_or_label # rest) out =
     (case (if has_label instr_or_label then print_label instr_or_label out
            else print_instr instr_or_label out) of
        (out', Some e) \<Rightarrow> (out', Some e)
      | (out', None) \<Rightarrow> print_items rest out')"

text \<open>\<^verbatim>\<open>print('{} {{'.format(func['name'], func.get('type', 'void')))\<close>: the format string
  has one field, so the type is not printed.\<close>

definition print_func :: "func \<Rightarrow> stdout \<Rightarrow> stdout \<times> error option" where
  "print_func f out =
     (case print_items (instrs f) (out @ [name f @ '' {'']) of
        (out', Some e) \<Rightarrow> (out', Some e)
      | (out', None) \<Rightarrow> (out' @ [''}''], None))"

fun print_funcs :: "func list \<Rightarrow> stdout \<Rightarrow> stdout \<times> error option" where
  "print_funcs [] out = (out, None)"
| "print_funcs (f # fs) out =
     (case print_func f out of
        (out', Some e) \<Rightarrow> (out', Some e)
      | (out', None) \<Rightarrow> print_funcs fs out')"

definition print_prog :: "program \<Rightarrow> stdout \<times> error option" where
  "print_prog prog = print_funcs (prog_functions prog) []"

text \<open>The text on standard output: every line ends with a line feed.\<close>

definition text_of :: "stdout \<Rightarrow> string" where
  "text_of out = concat (map (\<lambda>l. l @ [CHR 0x0A]) out)"

section \<open>\<^verbatim>\<open>unroll_imports\<close>\<close>

text \<open>
  A Python dictionary keeps its keys in the order of their first insertion; storing under
  a key that is present replaces the value in place.
\<close>

type_synonym 'v dict = "(string \<times> 'v) list"

fun dict_set :: "'v dict \<Rightarrow> string \<Rightarrow> 'v \<Rightarrow> 'v dict" where
  "dict_set [] k v = [(k, v)]"
| "dict_set ((k', v') # d) k v = (if k' = k then (k, v) # d else (k', v') # dict_set d k v)"

text \<open>\<^verbatim>\<open>{f['name']: f for f in functions}\<close>\<close>

definition dict_of :: "func list \<Rightarrow> func dict" where
  "dict_of fs = foldl (\<lambda>d f. dict_set d (name f) f) [] fs"

text \<open>\<^verbatim>\<open>d.update(d')\<close>\<close>

definition dict_update :: "'v dict \<Rightarrow> 'v dict \<Rightarrow> 'v dict" where
  "dict_update d d' = foldl (\<lambda>d (k, v). dict_set d k v) d d'"

text \<open>
  Opening \<^verbatim>\<open>module_name.bril\<close> and parsing what it holds. \<open>fs\<close> is the file system: the
  text of a file, or \<open>None\<close> where \<^verbatim>\<open>open\<close> raises \<^verbatim>\<open>IOError\<close>, after which the code
  writes a message and calls \<^verbatim>\<open>sys.exit(1)\<close>. An exception of \<^verbatim>\<open>parse_bril\<close> is not
  caught.
\<close>

definition load_module :: "(string \<Rightarrow> string option) \<Rightarrow> string \<Rightarrow> error + program" where
  "load_module fs module_name =
     (case fs (module_name @ ''.bril'') of
        None \<Rightarrow> Inl (FailedToLoad module_name)
      | Some txt \<Rightarrow> parse_bril txt)"

text \<open>
  The loop of \<^verbatim>\<open>unroll_imports\<close>. The sets \<^verbatim>\<open>to_import\<close> and \<^verbatim>\<open>imported\<close> are lists
  without repetition. \<^verbatim>\<open>to_import.pop()\<close> removes an element that Python chooses: \<open>pick\<close>
  is that choice, a parameter. \<open>opened\<close> records the modules whose file the loop has
  opened, in order; the loop returns it with its result. The loop may run forever (an
  endless chain of imports), in which case the value is \<open>None\<close>.
\<close>

partial_function (option) import_loop ::
  "(string list \<Rightarrow> string) \<Rightarrow> (string \<Rightarrow> error + program) \<Rightarrow>
   string list \<Rightarrow> func dict \<Rightarrow> string list \<Rightarrow> string list \<Rightarrow>
   ((error + func dict) \<times> string list) option" where
  "import_loop pick load to_import all_functions_map imported opened =
     (if length to_import > 0 then
        (let module_name = pick to_import;
             to_import1 = removeAll module_name to_import;
             imported1 = List.insert module_name imported;
             opened1 = opened @ [module_name]
         in case load module_name of
              Inl e \<Rightarrow> Some (Inl e, opened1)
            | Inr loaded_prog \<Rightarrow>
               (let imports = (case prog_imports loaded_prog of None \<Rightarrow> [] | Some ms \<Rightarrow> ms);
                    to_import2 = List.union to_import1 [m \<leftarrow> imports. m \<notin> set imported1];
                    dups = [n \<leftarrow> remdups (map name (prog_functions loaded_prog)).
                              n \<in> set (map fst all_functions_map)]
                in if length dups > 0 then Some (Inl (FunctionsDefinedTwice dups), opened1)
                   else import_loop pick load to_import2
                          (dict_update all_functions_map (dict_of (prog_functions loaded_prog)))
                          imported1 opened1))
      else Some (Inr all_functions_map, opened))"

declare import_loop.simps [code]

text \<open>
  \<^verbatim>\<open>unroll_imports\<close>: a program without the key \<^verbatim>\<open>imports\<close> is returned as it is;
  otherwise the loop runs and the result has the key \<^verbatim>\<open>functions\<close> only. The results
  are the values that \<^verbatim>\<open>json.dumps\<close> writes out.
\<close>

definition unroll_imports ::
  "(string list \<Rightarrow> string) \<Rightarrow> (string \<Rightarrow> error + program) \<Rightarrow> program \<Rightarrow>
   ((error + program) \<times> string list) option" where
  "unroll_imports pick load prog =
     (case prog_imports prog of
        None \<Rightarrow> Some (Inr prog, [])
      | Some ims \<Rightarrow>
         (case import_loop pick load (remdups ims) (dict_of (prog_functions prog)) [] [] of
            None \<Rightarrow> None
          | Some (Inl e, opened) \<Rightarrow> Some (Inl e, opened)
          | Some (Inr d, opened) \<Rightarrow>
              Some (Inr \<lparr>prog_imports = None, prog_functions = map snd d\<rparr>, opened)))"

section \<open>Properties of the parser\<close>

text \<open>The comprehension never reaches \<^verbatim>\<open>unique.add\<close>: started from the empty set, it
  keeps the set empty and returns no name.\<close>

lemma find_dups_empty: "find_dups names {} = []"
  by (induction names) simp_all

text \<open>Whatever the text, \<^verbatim>\<open>parse_bril\<close> never raises its duplicate error: the transformer
  raises only Python's own errors, and the list of duplicates is empty.\<close>

lemma collect_err: "collect rs = Inl e \<Longrightarrow> Inl e \<in> set rs"
  by (induction rs rule: collect.induct) (auto split: sum.splits)

lemma str_of_err: "str_of x = Inl e \<Longrightarrow> e = TypeError"
  by (cases x) auto

lemma strs_of_err: "strs_of xs = Inl e \<Longrightarrow> e = TypeError"
  by (induction xs arbitrary: e) (auto split: sum.splits dest: str_of_err)

lemma lit_of_err: "lit_of x = Inl e \<Longrightarrow> e = TypeError"
  by (cases x) auto

lemma mk_arg_err: "mk_arg xs = Inl e \<Longrightarrow> e = TypeError \<or> e = IndexError"
  by (auto simp: mk_arg_def split: list.splits sum.splits dest: str_of_err)

lemma pop_args_err: "pop_args xs = Inl e \<Longrightarrow> e = TypeError \<or> e = IndexError"
  by (induction xs arbitrary: e rule: pop_args.induct)
     (auto split: sum.splits if_splits dest: mk_arg_err)

lemma as_item_err: "as_item x = Inl e \<Longrightarrow> e = TypeError"
  by (cases x) auto

lemma as_items_err: "as_items xs = Inl e \<Longrightarrow> e = TypeError"
  by (induction xs arbitrary: e) (auto split: sum.splits dest: as_item_err)

lemma as_funcs_err: "as_funcs xs = Inl e \<Longrightarrow> e = TypeError"
  by (induction xs arbitrary: e rule: as_funcs.induct) (auto split: sum.splits)

lemma pop_type_err: "pop_type xs = Inl e \<Longrightarrow> e = IndexError"
  by (auto simp: pop_type_def split: list.splits val.splits)

lemma py_int_err: "py_int x = Inl e \<Longrightarrow> e = ValueError"
  by (auto simp: py_int_def Let_def split: if_splits)

lemma pop0_err: "pop0 xs = Inl e \<Longrightarrow> e = IndexError"
  by (auto simp: pop0_def split: list.splits)

lemma t_const_err: "t_const xs = Inl e \<Longrightarrow> e \<in> {TypeError, IndexError, ValueError}"
  unfolding t_const_def
  by (auto split: sum.splits prod.splits dest: pop0_err str_of_err lit_of_err)

lemma t_vop_err: "t_vop xs = Inl e \<Longrightarrow> e \<in> {TypeError, IndexError, ValueError}"
  unfolding t_vop_def
  by (auto split: sum.splits prod.splits dest: pop0_err str_of_err strs_of_err)

lemma t_eop_err: "t_eop xs = Inl e \<Longrightarrow> e \<in> {TypeError, IndexError, ValueError}"
  unfolding t_eop_def
  by (auto split: sum.splits prod.splits dest: pop0_err str_of_err strs_of_err)

lemma t_label_err: "t_label xs = Inl e \<Longrightarrow> e \<in> {TypeError, IndexError, ValueError}"
  unfolding t_label_def
  by (auto split: sum.splits prod.splits dest: pop0_err str_of_err)

lemma t_func_err: "t_func xs = Inl e \<Longrightarrow> e \<in> {TypeError, IndexError, ValueError}"
  unfolding t_func_def
  by (auto split: sum.splits prod.splits
      dest: pop0_err str_of_err pop_args_err pop_type_err as_items_err)

lemma t_start_err: "t_start xs = Inl e \<Longrightarrow> e \<in> {TypeError, IndexError, ValueError}"
  unfolding t_start_def
  by (auto split: sum.splits prod.splits dest: as_funcs_err)

lemma t_small_err:
  "t_imp xs = Inl e \<Longrightarrow> e \<in> {TypeError, IndexError, ValueError}"
  "t_def_func xs = Inl e \<Longrightarrow> e \<in> {TypeError, IndexError, ValueError}"
  "t_int xs = Inl e \<Longrightarrow> e \<in> {TypeError, IndexError, ValueError}"
  "t_bool xs = Inl e \<Longrightarrow> e \<in> {TypeError, IndexError, ValueError}"
  "t_type xs = Inl e \<Longrightarrow> e \<in> {TypeError, IndexError, ValueError}"
  unfolding t_imp_def t_def_func_def t_int_def t_bool_def t_type_def
  by (auto split: sum.splits prod.splits list.splits if_splits
      dest: pop0_err str_of_err py_int_err)

lemma callback_err: "callback rule xs = Inl e \<Longrightarrow> e \<in> {TypeError, IndexError, ValueError}"
  unfolding callback_def
  by (auto split: if_splits
      dest: t_small_err t_start_err t_func_err t_const_err t_vop_err t_eop_err t_label_err)

lemma transform_err: "transform t = Inl e \<Longrightarrow> e \<in> {TypeError, IndexError, ValueError}"
proof (induction t arbitrary: e rule: transform.induct)
  case (1 k s)
  then show ?case by simp
next
  case (2 rule cs)
  show ?case
  proof (cases "collect (map transform cs)")
    case (Inl e')
    then have "Inl e' \<in> set (map transform cs)" by (rule collect_err)
    then obtain c where "c \<in> set cs" "transform c = Inl e'" by auto
    then have "e' \<in> {TypeError, IndexError, ValueError}" using 2 by blast
    moreover have "e = e'" using "2.prems" Inl by simp
    ultimately show ?thesis by simp
  next
    case (Inr items)
    then have "callback rule items = Inl e" using "2.prems" by simp
    then show ?thesis by (rule callback_err)
  qed
qed

lemma parse_bril_never_reports_duplicates:
  "parse_bril txt \<noteq> Inl (FunctionsDefinedTwice ds)"
proof
  assume h: "parse_bril txt = Inl (FunctionsDefinedTwice ds)"
  show False
  proof (cases "parse txt")
    case (Inl e)
    then have "e = UnexpectedInput" by (auto simp: parse_def split: list.splits)
    then show False using h Inl by (simp add: parse_bril_def)
  next
    case (Inr tree)
    show False
    proof (cases "transform tree")
      case (Inl e)
      then have "e \<in> {TypeError, IndexError, ValueError}" by (rule transform_err)
      then show False using h Inr Inl by (auto simp: parse_bril_def)
    next
      case r: (Inr v)
      then show False using h Inr
        by (cases v) (simp_all add: parse_bril_def find_dups_empty)
    qed
  qed
qed

text \<open>
  Claim C1. The claim: an input whose function list has the same name twice, such as two
  functions named \<^verbatim>\<open>main\<close>, makes \<^verbatim>\<open>parse_bril\<close> fail with the duplicate error and give no
  program. The code does attempt this check and misses it: on the text below, with two
  functions \<^verbatim>\<open>main\<close>, \<^verbatim>\<open>parse_bril\<close> returns the program with both.
\<close>

theorem parse_bril_keeps_two_mains:
  "parse_bril ''main { a: int = const 1; } main { b: int = const 2; }'' =
     Inr \<lparr>prog_imports = None,
          prog_functions =
            [Function ''main'' [] None [Const ''a'' ''int'' (IntLit 1)],
             Function ''main'' [] None [Const ''b'' ''int'' (IntLit 2)]]\<rparr>"
  by code_simp

text \<open>
  Claim C2. At every position the derivations of an instruction are listed by falling
  priority: the \<^verbatim>\<open>const\<close> comes first when the text there is one; otherwise the
  \<^verbatim>\<open>vop\<close>; otherwise the \<^verbatim>\<open>eop\<close>; otherwise the \<^verbatim>\<open>label\<close>. The text
  \<^verbatim>\<open>main { x: bool = const true; }\<close> has two derivations, a constant and a value
  operation named \<^verbatim>\<open>const\<close> with the argument \<^verbatim>\<open>true\<close>, in this order, and
  \<^verbatim>\<open>parse_bril\<close> returns the constant. A function whose body is the four lines
  \<^verbatim>\<open>a: int = const 4;\<close>, \<^verbatim>\<open>b: int = add a a;\<close>, \<^verbatim>\<open>print b;\<close>, \<^verbatim>\<open>loop:\<close> has exactly one
  derivation, and \<^verbatim>\<open>parse_bril\<close> returns for it exactly the constant, the value
  operation, the effect operation and the label, in this order.
\<close>

definition four_lines :: string where
  "four_lines =
     ''main {'' @ [CHR 0x0A] @
     ''  a: int = const 4;'' @ [CHR 0x0A] @
     ''  b: int = add a a;'' @ [CHR 0x0A] @
     ''  print b;'' @ [CHR 0x0A] @
     ''loop:'' @ [CHR 0x0A] @
     ''}'' @ [CHR 0x0A]"

definition one_const :: string where
  "one_const = ''main { x: bool = const true; }''"

theorem classification_by_priority:
  "(p_const s = Some c \<longrightarrow> hd (p_instr s) = c) \<and>
   (p_const s = None \<and> p_vop s = Some c \<longrightarrow> hd (p_instr s) = c) \<and>
   (p_const s = None \<and> p_vop s = None \<and> p_eop s = Some c \<longrightarrow> hd (p_instr s) = c) \<and>
   (p_const s = None \<and> p_vop s = None \<and> p_eop s = None \<and> p_label s = Some c \<longrightarrow>
      hd (p_instr s) = c) \<and>
   map transform (parses one_const) =
     [Inr (VData \<lparr>prog_imports = None,
            prog_functions = [Function ''main'' [] None [Const ''x'' ''bool'' (BoolLit True)]]\<rparr>),
      Inr (VData \<lparr>prog_imports = None,
            prog_functions =
              [Function ''main'' [] None [ValueOp ''x'' ''bool'' ''const'' [''true'']]]\<rparr>)] \<and>
   parse_bril one_const =
     Inr \<lparr>prog_imports = None,
          prog_functions = [Function ''main'' [] None [Const ''x'' ''bool'' (BoolLit True)]]\<rparr> \<and>
   length (parses four_lines) = 1 \<and>
   parse_bril four_lines =
     Inr \<lparr>prog_imports = None,
          prog_functions =
            [Function ''main'' [] None
               [Const ''a'' ''int'' (IntLit 4),
                ValueOp ''b'' ''int'' ''add'' [''a'', ''a''],
                EffectOp ''print'' [''b''],
                Label ''loop'']]\<rparr>"
proof -
  have 1: "p_const s = Some c \<longrightarrow> hd (p_instr s) = c"
    by (subst p_instr.simps) (simp add: alt_def)
  have 2: "p_const s = None \<and> p_vop s = Some c \<longrightarrow> hd (p_instr s) = c"
    by (subst p_instr.simps) (simp add: alt_def)
  have 3: "p_const s = None \<and> p_vop s = None \<and> p_eop s = Some c \<longrightarrow> hd (p_instr s) = c"
    by (subst p_instr.simps) (simp add: alt_def)
  have 4: "p_const s = None \<and> p_vop s = None \<and> p_eop s = None \<and> p_label s = Some c \<longrightarrow>
      hd (p_instr s) = c"
    by (subst p_instr.simps) (simp add: alt_def)
  have 5: "map transform (parses one_const) =
     [Inr (VData \<lparr>prog_imports = None,
            prog_functions = [Function ''main'' [] None [Const ''x'' ''bool'' (BoolLit True)]]\<rparr>),
      Inr (VData \<lparr>prog_imports = None,
            prog_functions =
              [Function ''main'' [] None [ValueOp ''x'' ''bool'' ''const'' [''true'']]]\<rparr>)]"
    by code_simp
  have 6: "parse_bril one_const =
     Inr \<lparr>prog_imports = None,
          prog_functions = [Function ''main'' [] None [Const ''x'' ''bool'' (BoolLit True)]]\<rparr>"
    by code_simp
  have 7: "length (parses four_lines) = 1" by code_simp
  have 8: "parse_bril four_lines =
     Inr \<lparr>prog_imports = None,
          prog_functions =
            [Function ''main'' [] None
               [Const ''a'' ''int'' (IntLit 4),
                ValueOp ''b'' ''int'' ''add'' [''a'', ''a''],
                EffectOp ''print'' [''b''],
                Label ''loop'']]\<rparr>"
    by code_simp
  from 1 2 3 4 5 6 7 8 show ?thesis by blast
qed

theorem classification_by_priority_witness:
  "p_const '' x: bool = const true; }'' =
     Some (Tree ''const'' [Token ''IDENT'' ''x'', Tree ''type'' [Token ''CNAME'' ''bool''],
                           Tree ''bool'' [Token ''BOOL'' ''true'']], '' }'') \<and>
   p_vop '' x: bool = const true; }'' =
     Some (Tree ''vop'' [Token ''IDENT'' ''x'', Tree ''type'' [Token ''CNAME'' ''bool''],
                         Token ''CNAME'' ''const'', Token ''IDENT'' ''true''], '' }'') \<and>
   hd (p_instr '' x: bool = const true; }'') =
     (Tree ''const'' [Token ''IDENT'' ''x'', Tree ''type'' [Token ''CNAME'' ''bool''],
                      Tree ''bool'' [Token ''BOOL'' ''true'']], '' }'') \<and>
   p_const '' b: int = add a a; }'' = None \<and>
   p_vop '' b: int = add a a; }'' =
     Some (Tree ''vop'' [Token ''IDENT'' ''b'', Tree ''type'' [Token ''CNAME'' ''int''],
                         Token ''CNAME'' ''add'', Token ''IDENT'' ''a'', Token ''IDENT'' ''a''],
           '' }'') \<and>
   hd (p_instr '' b: int = add a a; }'') =
     (Tree ''vop'' [Token ''IDENT'' ''b'', Tree ''type'' [Token ''CNAME'' ''int''],
                    Token ''CNAME'' ''add'', Token ''IDENT'' ''a'', Token ''IDENT'' ''a''],
      '' }'') \<and>
   p_const '' print b; }'' = None \<and> p_vop '' print b; }'' = None \<and>
   p_eop '' print b; }'' =
     Some (Tree ''eop'' [Token ''CNAME'' ''print'', Token ''IDENT'' ''b''], '' }'') \<and>
   hd (p_instr '' print b; }'') =
     (Tree ''eop'' [Token ''CNAME'' ''print'', Token ''IDENT'' ''b''], '' }'') \<and>
   p_const '' loop: }'' = None \<and> p_vop '' loop: }'' = None \<and> p_eop '' loop: }'' = None \<and>
   p_label '' loop: }'' = Some (Tree ''label'' [Token ''IDENT'' ''loop''], '' }'') \<and>
   hd (p_instr '' loop: }'') = (Tree ''label'' [Token ''IDENT'' ''loop''], '' }'')"
proof -
  let ?s1 = "'' x: bool = const true; }''"
  let ?c1 = "(Tree ''const'' [Token ''IDENT'' ''x'', Tree ''type'' [Token ''CNAME'' ''bool''],
                      Tree ''bool'' [Token ''BOOL'' ''true'']], '' }'')"
  let ?s2 = "'' b: int = add a a; }''"
  let ?c2 = "(Tree ''vop'' [Token ''IDENT'' ''b'', Tree ''type'' [Token ''CNAME'' ''int''],
                    Token ''CNAME'' ''add'', Token ''IDENT'' ''a'', Token ''IDENT'' ''a''],
      '' }'')"
  let ?s3 = "'' print b; }''"
  let ?c3 = "(Tree ''eop'' [Token ''CNAME'' ''print'', Token ''IDENT'' ''b''], '' }'')"
  let ?s4 = "'' loop: }''"
  let ?c4 = "(Tree ''label'' [Token ''IDENT'' ''loop''], '' }'')"
  have a: "p_const ?s1 = Some ?c1" by code_simp
  have b: "p_vop ?s1 = Some (Tree ''vop'' [Token ''IDENT'' ''x'',
             Tree ''type'' [Token ''CNAME'' ''bool''],
             Token ''CNAME'' ''const'', Token ''IDENT'' ''true''], '' }'')" by code_simp
  have c: "p_const ?s2 = None" by code_simp
  have d: "p_vop ?s2 = Some ?c2" by code_simp
  have e: "p_const ?s3 = None" "p_vop ?s3 = None" "p_eop ?s3 = Some ?c3" by code_simp+
  have f: "p_const ?s4 = None" "p_vop ?s4 = None" "p_eop ?s4 = None" "p_label ?s4 = Some ?c4"
    by code_simp+
  from classification_by_priority [of ?s1 ?c1] a have h1: "hd (p_instr ?s1) = ?c1" by blast
  from classification_by_priority [of ?s2 ?c2] c d have h2: "hd (p_instr ?s2) = ?c2" by blast
  from classification_by_priority [of ?s3 ?c3] e have h3: "hd (p_instr ?s3) = ?c3" by blast
  from classification_by_priority [of ?s4 ?c4] f have h4: "hd (p_instr ?s4) = ?c4" by blast
  from a b c d e f h1 h2 h3 h4 show ?thesis by blast
qed

text \<open>
  Claim C3. The claim: \<^verbatim>\<open>parse_bril\<close> succeeds on every text of the grammar without a
  repeated function name, in particular on \<^verbatim>\<open>main { }\<close>. The grammar does derive
  \<^verbatim>\<open>main { }\<close>, with the name as the only child of \<^verbatim>\<open>func\<close>, but \<^verbatim>\<open>func\<close> then reads
  \<^verbatim>\<open>items[0]\<close> from the empty list and \<^verbatim>\<open>parse_bril\<close> stops with \<^verbatim>\<open>IndexError\<close>.
\<close>

theorem parse_bril_empty_body_raises:
  "parses ''main { }'' = [Tree ''start'' [Tree ''func'' [Token ''CNAME'' ''main'']]] \<and>
   parse_bril ''main { }'' = Inl IndexError"
  by code_simp

section \<open>Nested function definitions\<close>

lemma pop_args_keeps_func:
  "pop_args xs = Inr (as, rest) \<Longrightarrow> VFunc g \<in> set xs \<Longrightarrow> VFunc g \<in> set rest"
  by (induction xs arbitrary: as rest rule: pop_args.induct)
     (auto split: if_splits sum.splits)

lemma pop_type_keeps_func:
  "pop_type xs = Inr (t, rest) \<Longrightarrow> VFunc g \<in> set xs \<Longrightarrow> VFunc g \<in> set rest"
  by (auto simp: pop_type_def split: list.splits val.splits)

lemma as_items_keeps_func:
  "as_items xs = Inr is \<Longrightarrow> VFunc g \<in> set xs \<Longrightarrow> FuncItem g \<in> set is"
  by (induction xs arbitrary: "is") (auto split: sum.splits)

text \<open>
  Claim C10. Where the keyword \<^verbatim>\<open>def\<close> is followed by a derivation of \<^verbatim>\<open>func\<close>, the
  grammar derives an instruction, the tree \<^verbatim>\<open>def_func\<close> over the function's tree; the
  transformer replaces that tree by the record of the nested function; and \<^verbatim>\<open>func\<close> puts
  every function record among its children into the \<^verbatim>\<open>instrs\<close> of the enclosing
  function, as an item next to the instructions.
\<close>

theorem def_func_in_instrs:
  "(keyword ''def'' s = Some r \<and> (f, r') \<in> set (p_func r)
      \<longrightarrow> (Tree ''def_func'' [f], r') \<in> set (p_instr s)) \<and>
   (transform f = Inr (VFunc g)
      \<longrightarrow> transform (Tree ''def_func'' [f]) = Inr (VFunc g)) \<and>
   (t_func items = Inr (VFunc h) \<and> VFunc g \<in> set items
      \<longrightarrow> FuncItem g \<in> set (instrs h))"
proof (intro conjI impI)
  assume "keyword ''def'' s = Some r \<and> (f, r') \<in> set (p_func r)"
  then show "(Tree ''def_func'' [f], r') \<in> set (p_instr s)"
    by (subst p_instr.simps) force
next
  assume "transform f = Inr (VFunc g)"
  then show "transform (Tree ''def_func'' [f]) = Inr (VFunc g)"
    by (simp add: callback_def t_def_func_def pop0_def)
next
  assume a: "t_func items = Inr (VFunc h) \<and> VFunc g \<in> set items"
  then obtain nm items1 as items2 ty items3 n "is" where s:
    "pop0 items = Inr (nm, items1)" "pop_args items1 = Inr (as, items2)"
    "pop_type items2 = Inr (ty, items3)" "str_of nm = Inr n" "as_items items3 = Inr is"
    "h = Function n as ty is"
    by (auto simp: t_func_def split: sum.splits prod.splits)
  have "nm \<noteq> VFunc g" using s(4) by auto
  then have "VFunc g \<in> set items1" using a s(1) by (auto simp: pop0_def split: list.splits)
  then have "VFunc g \<in> set items3"
    using pop_args_keeps_func [OF s(2)] pop_type_keeps_func [OF s(3)] by blast
  then show "FuncItem g \<in> set (instrs h)"
    using as_items_keeps_func [OF s(5)] s(6) by simp
qed

definition inner_tree :: tree where
  "inner_tree =
     Tree ''func''
       [Token ''CNAME'' ''inner'',
        Tree ''const'' [Token ''IDENT'' ''x'', Tree ''type'' [Token ''CNAME'' ''int''],
                        Tree ''int'' [Token ''SIGNED_INT'' ''1'']]]"

definition inner :: func where
  "inner = Function ''inner'' [] None [Const ''x'' ''int'' (IntLit 1)]"

theorem def_func_in_instrs_witness:
  "(Tree ''def_func'' [inner_tree], '' }'') \<in> set (p_instr '' def inner { x: int = const 1; } }'') \<and>
   transform (Tree ''def_func'' [inner_tree]) = Inr (VFunc inner) \<and>
   FuncItem inner \<in> set (instrs (Function ''main'' [] None [Label ''top'', FuncItem inner])) \<and>
   parse_bril ''main { top: def inner { x: int = const 1; } }'' =
     Inr \<lparr>prog_imports = None,
          prog_functions = [Function ''main'' [] None [Label ''top'', FuncItem inner]]\<rparr>"
proof -
  have k: "keyword ''def'' '' def inner { x: int = const 1; } }'' =
             Some '' inner { x: int = const 1; } }'' \<and>
           (inner_tree, '' }'') \<in> set (p_func '' inner { x: int = const 1; } }'')"
    by code_simp
  have t: "transform inner_tree = Inr (VFunc inner)"
    by code_simp
  have f: "t_func [VToken ''CNAME'' ''main'', VInstr (Label ''top''), VFunc inner] =
             Inr (VFunc (Function ''main'' [] None [Label ''top'', FuncItem inner])) \<and>
           VFunc inner \<in> set [VToken ''CNAME'' ''main'', VInstr (Label ''top''), VFunc inner]"
    by code_simp
  have p: "parse_bril ''main { top: def inner { x: int = const 1; } }'' =
     Inr \<lparr>prog_imports = None,
          prog_functions = [Function ''main'' [] None [Label ''top'', FuncItem inner]]\<rparr>"
    by code_simp
  note th = def_func_in_instrs
    [of "'' def inner { x: int = const 1; } }''" "'' inner { x: int = const 1; } }''"
        inner_tree "'' }''" inner
        "[VToken ''CNAME'' ''main'', VInstr (Label ''top''), VFunc inner]"
        "Function ''main'' [] None [Label ''top'', FuncItem inner]"]
  from th k have c1: "(Tree ''def_func'' [inner_tree], '' }'') \<in>
      set (p_instr '' def inner { x: int = const 1; } }'')" by blast
  from th t have c2: "transform (Tree ''def_func'' [inner_tree]) = Inr (VFunc inner)" by blast
  from th f have c3: "FuncItem inner \<in>
      set (instrs (Function ''main'' [] None [Label ''top'', FuncItem inner]))" by blast
  from c1 c2 c3 p show ?thesis by blast
qed

section \<open>Properties of the pretty-printer\<close>

text \<open>The indentation of a line: the number of spaces it starts with.\<close>

definition indent :: "string \<Rightarrow> nat" where
  "indent l = length (takeWhile (\<lambda>c. c = CHR '' '') l)"

text \<open>A line as the printer writes it for an item: a label's name and a colon, or two
  spaces, the text of the instruction and a semicolon.\<close>

definition printed_as :: "item \<Rightarrow> string \<Rightarrow> bool" where
  "printed_as i l \<longleftrightarrow>
     (case i of
        Label n \<Rightarrow> l = n @ '':''
      | _ \<Rightarrow> (\<exists>s. instr_to_string i = Inr s \<and> l = ''  '' @ s @ '';''))"

lemma print_step:
  assumes "(if has_label i then print_label i out else print_instr i out) = (out', r)"
  shows "(r = None \<and> (\<exists>l. out' = out @ [l] \<and> printed_as i l)) \<or> (r \<noteq> None \<and> out' = out)"
  using assms
  by (cases i) (auto simp: print_instr_def printed_as_def split: if_splits sum.splits)

lemma print_items_lines:
  "print_items is out = (out', r) \<Longrightarrow>
     \<exists>ls. out' = out @ ls \<and> length ls \<le> length is \<and>
          (r = None \<longrightarrow> length ls = length is) \<and>
          (\<forall>k < length ls. printed_as (is ! k) (ls ! k))"
proof (induction "is" arbitrary: out)
  case Nil
  then show ?case by simp
next
  case (Cons i rest)
  obtain o1 r1 where s1:
    "(if has_label i then print_label i out else print_instr i out) = (o1, r1)"
    by (cases "if has_label i then print_label i out else print_instr i out") auto
  from print_step [OF s1] show ?case
  proof
    assume ok: "r1 = None \<and> (\<exists>l. o1 = out @ [l] \<and> printed_as i l)"
    then obtain l where l: "o1 = out @ [l]" "printed_as i l" by blast
    from Cons.prems s1 ok have "print_items rest o1 = (out', r)" by simp
    from Cons.IH [OF this] obtain ls where ls:
      "out' = o1 @ ls" "length ls \<le> length rest" "r = None \<longrightarrow> length ls = length rest"
      "\<forall>k < length ls. printed_as (rest ! k) (ls ! k)" by blast
    have "\<forall>k < length (l # ls). printed_as ((i # rest) ! k) ((l # ls) ! k)"
      using l(2) ls(4) by (auto simp: nth_Cons split: nat.splits)
    with l ls show ?thesis
      by (intro exI [of _ "l # ls"]) simp
  next
    assume stop: "r1 \<noteq> None \<and> o1 = out"
    with Cons.prems s1 have "out' = out" "r \<noteq> None" by auto
    then show ?thesis by (intro exI [of _ "[]"]) simp
  qed
qed

lemma indent_instr_line:
  "(s \<noteq> [] \<longrightarrow> hd s \<noteq> CHR '' '') \<Longrightarrow> indent (''  '' @ s @ '';'') = 2"
  by (cases s) (auto simp: indent_def)

lemma indent_label_line:
  "(n \<noteq> [] \<longrightarrow> hd n \<noteq> CHR '' '') \<Longrightarrow> indent (n @ '':'') = 0"
  by (cases n) (auto simp: indent_def)

lemma indent_header_line:
  "n \<noteq> [] \<Longrightarrow> hd n \<noteq> CHR '' '' \<Longrightarrow> indent (n @ '' {'') = 0"
  by (cases n) (auto simp: indent_def)

text \<open>
  Claim C4, amended. The claim has every instruction line and every label line indented
  by two spaces; \<^verbatim>\<open>print_label\<close> writes the label at the start of the line. What the
  printer does, for every function and whether or not it runs to the end: after the output
  so far comes the header, the name followed by \<^verbatim>\<open> {\<close>; then one line per item, in order,
  a label as its name and a colon with nothing before it, an instruction as two spaces,
  its text and a semicolon; then, unless an exception stopped the printing, the line
  \<^verbatim>\<open>}\<close>. So an instruction line is indented by exactly two spaces when the
  instruction's text does not start with a space, a label line and the header are not
  indented when the name does not start with a space (and, for the header, is not empty),
  and the closing line is never indented.
\<close>

theorem print_func_lines:
  assumes "print_func f out = (out', r)"
  shows "\<exists>ls. out' = out @ [name f @ '' {''] @ ls @ (if r = None then [''}''] else []) \<and>
          length ls \<le> length (instrs f) \<and>
          (r = None \<longrightarrow> length ls = length (instrs f)) \<and>
          (\<forall>k < length ls. printed_as (instrs f ! k) (ls ! k)) \<and>
          (\<forall>k < length ls. \<forall>n. instrs f ! k = Label n \<and> (n \<noteq> [] \<longrightarrow> hd n \<noteq> CHR '' '')
              \<longrightarrow> indent (ls ! k) = 0) \<and>
          (\<forall>k < length ls. \<forall>s. instr_to_string (instrs f ! k) = Inr s \<and>
                                 (s \<noteq> [] \<longrightarrow> hd s \<noteq> CHR '' '')
              \<longrightarrow> indent (ls ! k) = 2) \<and>
          (name f \<noteq> [] \<and> hd (name f) \<noteq> CHR '' '' \<longrightarrow> indent (name f @ '' {'') = 0) \<and>
          indent ''}'' = 0"
proof -
  obtain o1 r1 where p: "print_items (instrs f) (out @ [name f @ '' {'']) = (o1, r1)"
    by (cases "print_items (instrs f) (out @ [name f @ '' {''])") auto
  from print_items_lines [OF p] obtain ls where ls:
    "o1 = (out @ [name f @ '' {'']) @ ls" "length ls \<le> length (instrs f)"
    "r1 = None \<longrightarrow> length ls = length (instrs f)"
    "\<forall>k < length ls. printed_as (instrs f ! k) (ls ! k)" by blast
  have r: "r = r1" and o: "out' = o1 @ (if r = None then [''}''] else [])"
    using assms p by (auto simp: print_func_def split: option.splits)
  have lab: "indent (ls ! k) = 0"
    if "k < length ls" "instrs f ! k = Label n" "n \<noteq> [] \<longrightarrow> hd n \<noteq> CHR '' ''" for k n
    using ls(4) that indent_label_line [of n] by (auto simp: printed_as_def)
  have ins: "indent (ls ! k) = 2"
    if "k < length ls" "instr_to_string (instrs f ! k) = Inr s" "s \<noteq> [] \<longrightarrow> hd s \<noteq> CHR '' ''"
    for k s
  proof -
    from that(2) have "\<not> has_label (instrs f ! k)" by (cases "instrs f ! k") auto
    then have "ls ! k = ''  '' @ s @ '';''"
      using ls(4) that(1,2) by (cases "instrs f ! k") (auto simp: printed_as_def)
    then show ?thesis using indent_instr_line [OF that(3)] by simp
  qed
  have "indent ''}'' = 0" by (simp add: indent_def)
  with ls r o lab ins indent_header_line [of "name f"] show ?thesis
    by (intro exI [of _ ls]) auto
qed

text \<open>The claim C4 as stated fails on a function with a label: its line starts with
  the name.\<close>

definition labelled :: func where
  "labelled = Function ''main'' [] None [Const ''a'' ''int'' (IntLit 4), Label ''loop'']"

theorem label_line_not_indented:
  "print_prog \<lparr>prog_imports = None, prog_functions = [labelled]\<rparr> =
     ([''main {'', ''  a: int = const 4;'', ''loop:'', ''}''], None) \<and>
   indent ''loop:'' \<noteq> 2"
  by code_simp

theorem print_func_lines_witness:
  "print_func labelled [] = ([''main {'', ''  a: int = const 4;'', ''loop:'', ''}''], None) \<and>
   (\<exists>ls. [''main {'', ''  a: int = const 4;'', ''loop:'', ''}''] =
           [] @ [name labelled @ '' {''] @ ls @ [''}''] \<and>
         length ls = length (instrs labelled) \<and>
         indent (ls ! 0) = 2 \<and> indent (ls ! 1) = 0)"
proof -
  have e: "print_func labelled [] =
      ([''main {'', ''  a: int = const 4;'', ''loop:'', ''}''], None)"
    by code_simp
  from print_func_lines [OF e] obtain ls where ls:
    "[''main {'', ''  a: int = const 4;'', ''loop:'', ''}''] =
       [] @ [name labelled @ '' {''] @ ls @ [''}'']"
    "length ls = length (instrs labelled)"
    "\<forall>k < length ls. \<forall>n. instrs labelled ! k = Label n \<and> (n \<noteq> [] \<longrightarrow> hd n \<noteq> CHR '' '')
              \<longrightarrow> indent (ls ! k) = 0"
    "\<forall>k < length ls. \<forall>s. instr_to_string (instrs labelled ! k) = Inr s \<and>
                                 (s \<noteq> [] \<longrightarrow> hd s \<noteq> CHR '' '')
              \<longrightarrow> indent (ls ! k) = 2"
    by auto
  have len: "length ls = 2" using ls(2) by (simp add: labelled_def)
  have "indent (ls ! 1) = 0"
    using ls(3) len by (auto simp: labelled_def)
  moreover have "instr_to_string (instrs labelled ! 0) = Inr ''a: int = const 4''"
    by code_simp
  then have "indent (ls ! 0) = 2"
    using ls(4) len by auto
  ultimately show ?thesis using e ls(1,2) by blast
qed

section \<open>Properties of the import resolver\<close>

subsection \<open>Dictionaries\<close>

lemma map_of_dict_set: "map_of (dict_set d k v) = (map_of d)(k \<mapsto> v)"
  by (induction d k v rule: dict_set.induct) (auto simp: fun_eq_iff)

lemma keys_dict_set:
  "map fst (dict_set d k v) = (if k \<in> set (map fst d) then map fst d else map fst d @ [k])"
  by (induction d k v rule: dict_set.induct) auto

lemma set_dict_set: "set (dict_set d k v) \<subseteq> insert (k, v) (set d)"
  by (induction d k v rule: dict_set.induct) auto

lemma dict_set_fresh: "k \<notin> set (map fst d) \<Longrightarrow> dict_set d k v = d @ [(k, v)]"
  by (induction d k v rule: dict_set.induct) auto

lemma distinct_dict_set: "distinct (map fst d) \<Longrightarrow> distinct (map fst (dict_set d k v))"
  by (simp add: keys_dict_set)

lemma dict_of_snoc: "dict_of (fs @ [f]) = dict_set (dict_of fs) (name f) f"
  by (simp add: dict_of_def)

lemma keys_dict_of: "set (map fst (dict_of fs)) = set (map name fs)"
  by (induction fs rule: rev_induct) (auto simp: dict_of_snoc keys_dict_set dict_of_def)

lemma distinct_dict_of: "distinct (map fst (dict_of fs))"
  by (induction fs rule: rev_induct) (auto simp: dict_of_snoc distinct_dict_set dict_of_def)

lemma named_dict_of: "(k, v) \<in> set (dict_of fs) \<Longrightarrow> name v = k"
proof (induction fs arbitrary: k v rule: rev_induct)
  case Nil
  then show ?case by (simp add: dict_of_def)
next
  case (snoc f fs)
  then show ?case using set_dict_set [of "dict_of fs" "name f" f]
    by (auto simp: dict_of_snoc)
qed

lemma map_of_dict_of:
  "map_of (dict_of fs) n =
     (if n \<in> set (map name fs) then Some (last [g \<leftarrow> fs. name g = n]) else None)"
  by (induction fs rule: rev_induct) (auto simp: dict_of_snoc map_of_dict_set dict_of_def)

lemma dict_of_distinct: "distinct (map name fs) \<Longrightarrow> dict_of fs = map (\<lambda>f. (name f, f)) fs"
proof (induction fs rule: rev_induct)
  case Nil
  then show ?case by (simp add: dict_of_def)
next
  case (snoc f fs)
  then have "name f \<notin> set (map fst (dict_of fs))" by (simp add: keys_dict_of)
  then show ?case using snoc by (simp add: dict_of_snoc dict_set_fresh)
qed

lemma values_dict_of_distinct: "distinct (map name fs) \<Longrightarrow> map snd (dict_of fs) = fs"
  by (simp add: dict_of_distinct comp_def)

lemma dict_update_snoc: "dict_update d (d' @ [(k, v)]) = dict_set (dict_update d d') k v"
  by (simp add: dict_update_def)

lemma set_keys_dict_set: "set (map fst (dict_set d k v)) = insert k (set (map fst d))"
  by (auto simp: keys_dict_set)

lemma keys_dict_update: "set (map fst (dict_update d d')) = set (map fst d) \<union> set (map fst d')"
proof (induction d' rule: rev_induct)
  case Nil
  then show ?case by (simp add: dict_update_def)
next
  case (snoc kv d')
  obtain k v where kv: "kv = (k, v)" by (cases kv)
  have "set (map fst (dict_update d (d' @ [kv]))) = insert k (set (map fst (dict_update d d')))"
    unfolding kv dict_update_snoc by (rule set_keys_dict_set)
  then show ?case using snoc kv by auto
qed

lemma distinct_dict_update: "distinct (map fst d) \<Longrightarrow> distinct (map fst (dict_update d d'))"
proof (induction d' rule: rev_induct)
  case Nil
  then show ?case by (simp add: dict_update_def)
next
  case (snoc kv d')
  obtain k v where kv: "kv = (k, v)" by (cases kv)
  show ?case unfolding kv dict_update_snoc using snoc by (intro distinct_dict_set) simp
qed

lemma set_dict_update: "set (dict_update d d') \<subseteq> set d \<union> set d'"
proof (induction d' rule: rev_induct)
  case Nil
  then show ?case by (simp add: dict_update_def)
next
  case (snoc kv d')
  obtain k v where kv: "kv = (k, v)" by (cases kv)
  show ?case using snoc set_dict_set [of "dict_update d d'" k v]
    by (auto simp: kv dict_update_snoc)
qed

lemma map_of_dict_update_old:
  "n \<notin> set (map fst d') \<Longrightarrow> map_of (dict_update d d') n = map_of d n"
proof (induction d' rule: rev_induct)
  case Nil
  then show ?case by (simp add: dict_update_def)
next
  case (snoc kv d')
  obtain k v where kv: "kv = (k, v)" by (cases kv)
  show ?case using snoc by (auto simp: kv dict_update_snoc map_of_dict_set)
qed

lemma values_named:
  "distinct (map fst d) \<Longrightarrow> \<forall>(k, v) \<in> set d. name v = k \<Longrightarrow>
     [g \<leftarrow> map snd d. name g = n] = (case map_of d n of None \<Rightarrow> [] | Some v \<Rightarrow> [v])"
proof (induction d)
  case Nil
  then show ?case by simp
next
  case (Cons kv d)
  obtain k v where kv: "kv = (k, v)" by (cases kv)
  have nk: "name v = k" using Cons.prems(2) kv by simp
  have rest: "[g \<leftarrow> map snd d. name g = n] = (case map_of d n of None \<Rightarrow> [] | Some v \<Rightarrow> [v])"
    using Cons by simp
  show ?case
  proof (cases "n = k")
    case True
    then have "map_of d n = None" using Cons.prems(1) kv
      by (simp add: map_of_eq_None_iff)
    then show ?thesis using rest True nk kv by simp
  next
    case False
    then show ?thesis using rest nk kv by simp
  qed
qed

subsection \<open>One turn of the loop\<close>

lemma import_loop_done:
  "import_loop pick load [] afm imported opened = Some (Inr afm, opened)"
  by (subst import_loop.simps) simp

lemma import_loop_fail:
  "to_import \<noteq> [] \<Longrightarrow> load (pick to_import) = Inl e \<Longrightarrow>
     import_loop pick load to_import afm imported opened = Some (Inl e, opened @ [pick to_import])"
  by (subst import_loop.simps) simp

definition colliding :: "program \<Rightarrow> func dict \<Rightarrow> string list" where
  "colliding loaded_prog afm =
     [n \<leftarrow> remdups (map name (prog_functions loaded_prog)). n \<in> set (map fst afm)]"

lemma set_colliding:
  "set (colliding lp afm) = set (map name (prog_functions lp)) \<inter> set (map fst afm)"
  by (auto simp: colliding_def)

lemma import_loop_dups:
  "to_import \<noteq> [] \<Longrightarrow> load (pick to_import) = Inr lp \<Longrightarrow> colliding lp afm \<noteq> [] \<Longrightarrow>
     import_loop pick load to_import afm imported opened =
       Some (Inl (FunctionsDefinedTwice (colliding lp afm)), opened @ [pick to_import])"
  by (subst import_loop.simps) (simp add: colliding_def Let_def)

lemma import_loop_next:
  "to_import \<noteq> [] \<Longrightarrow> load (pick to_import) = Inr lp \<Longrightarrow> colliding lp afm = [] \<Longrightarrow>
     import_loop pick load to_import afm imported opened =
       import_loop pick load
         (List.union (removeAll (pick to_import) to_import)
            [m \<leftarrow> (case prog_imports lp of None \<Rightarrow> [] | Some ms \<Rightarrow> ms).
               m \<notin> set (List.insert (pick to_import) imported)])
         (dict_update afm (dict_of (prog_functions lp)))
         (List.insert (pick to_import) imported)
         (opened @ [pick to_import])"
  by (subst import_loop.simps) (simp add: colliding_def Let_def)

text \<open>
  Claim C5. In a turn of the loop that loads a module defining a name which is already a
  key of the accumulated map \<^verbatim>\<open>all_functions_map\<close>, the loop stops there with the
  duplicate error, and the names it carries are exactly those the module shares with the
  map; the map is not updated, since the error is the result. So, for a program with one
  import whose module shares a function name with the program, \<^verbatim>\<open>unroll_imports\<close> fails
  with the duplicate error over exactly the shared names.
\<close>

theorem import_collision_raises:
  "(to_import \<noteq> [] \<and> load (pick to_import) = Inr loaded_prog \<and>
    set (map name (prog_functions loaded_prog)) \<inter> set (map fst all_functions_map) \<noteq> {}
    \<longrightarrow> (\<exists>dups. import_loop pick load to_import all_functions_map imported opened =
                   Some (Inl (FunctionsDefinedTwice dups), opened @ [pick to_import]) \<and>
                 set dups = set (map name (prog_functions loaded_prog)) \<inter>
                            set (map fst all_functions_map))) \<and>
   (prog_imports prog = Some [m] \<and> pick [m] = m \<and> load m = Inr loaded_prog \<and>
    set (map name (prog_functions loaded_prog)) \<inter> set (map name (prog_functions prog)) \<noteq> {}
    \<longrightarrow> (\<exists>dups. unroll_imports pick load prog = Some (Inl (FunctionsDefinedTwice dups), [m]) \<and>
                 set dups = set (map name (prog_functions loaded_prog)) \<inter>
                            set (map name (prog_functions prog))))"
proof (intro conjI impI)
  assume a: "to_import \<noteq> [] \<and> load (pick to_import) = Inr loaded_prog \<and>
    set (map name (prog_functions loaded_prog)) \<inter> set (map fst all_functions_map) \<noteq> {}"
  then have "colliding loaded_prog all_functions_map \<noteq> []"
    using set_colliding [of loaded_prog all_functions_map] by auto
  with a have "import_loop pick load to_import all_functions_map imported opened =
       Some (Inl (FunctionsDefinedTwice (colliding loaded_prog all_functions_map)),
             opened @ [pick to_import])"
    by (intro import_loop_dups) auto
  then show "\<exists>dups. import_loop pick load to_import all_functions_map imported opened =
                   Some (Inl (FunctionsDefinedTwice dups), opened @ [pick to_import]) \<and>
                 set dups = set (map name (prog_functions loaded_prog)) \<inter>
                            set (map fst all_functions_map)"
    using set_colliding by blast
next
  assume a: "prog_imports prog = Some [m] \<and> pick [m] = m \<and> load m = Inr loaded_prog \<and>
    set (map name (prog_functions loaded_prog)) \<inter> set (map name (prog_functions prog)) \<noteq> {}"
  let ?d = "dict_of (prog_functions prog)"
  have k: "set (map fst ?d) = set (map name (prog_functions prog))" by (rule keys_dict_of)
  have ne: "colliding loaded_prog ?d \<noteq> []"
    using a set_colliding [of loaded_prog ?d] k by auto
  have "import_loop pick load [m] ?d [] [] =
       Some (Inl (FunctionsDefinedTwice (colliding loaded_prog ?d)), [] @ [pick [m]])"
    using a ne by (intro import_loop_dups) auto
  then have "unroll_imports pick load prog =
       Some (Inl (FunctionsDefinedTwice (colliding loaded_prog ?d)), [m])"
    using a by (simp add: unroll_imports_def)
  then show "\<exists>dups. unroll_imports pick load prog = Some (Inl (FunctionsDefinedTwice dups), [m]) \<and>
                 set dups = set (map name (prog_functions loaded_prog)) \<inter>
                            set (map name (prog_functions prog))"
    using set_colliding [of loaded_prog ?d] k by blast
qed

subsection \<open>The loop returns\<close>

lemma import_loop_returns:
  assumes fin: "finite {m. \<exists>p. load m = Inr p}"
    and pick: "\<forall>xs. xs \<noteq> [] \<longrightarrow> pick xs \<in> set xs"
  shows "set to_import \<inter> set imported = {} \<Longrightarrow> distinct opened \<Longrightarrow>
         set opened \<subseteq> set imported \<Longrightarrow>
         \<exists>res tr. import_loop pick load to_import afm imported opened = Some (res, tr) \<and>
                  distinct tr"
proof (induction "card ({m. \<exists>p. load m = Inr p} - set imported)"
       arbitrary: to_import afm imported opened rule: less_induct)
  case less
  let ?L = "{m. \<exists>p. load m = Inr p}"
  show ?case
  proof (cases "to_import = []")
    case True
    then show ?thesis using less.prems by (simp add: import_loop_done)
  next
    case False
    let ?m = "pick to_import"
    have m_in: "?m \<in> set to_import" using pick False by blast
    then have m_new: "?m \<notin> set imported" using less.prems(1) by blast
    then have m_unopened: "?m \<notin> set opened" using less.prems(3) by blast
    have d1: "distinct (opened @ [?m])" using less.prems(2) m_unopened by simp
    show ?thesis
    proof (cases "load ?m")
      case (Inl e)
      then show ?thesis using False d1 by (simp add: import_loop_fail)
    next
      case (Inr lp)
      show ?thesis
      proof (cases "colliding lp afm = []")
        case c: False
        then show ?thesis using False Inr d1 by (simp add: import_loop_dups)
      next
        case c: True
        let ?imp1 = "List.insert ?m imported"
        let ?ti2 = "List.union (removeAll ?m to_import)
            [m \<leftarrow> (case prog_imports lp of None \<Rightarrow> [] | Some ms \<Rightarrow> ms). m \<notin> set ?imp1]"
        have m_L: "?m \<in> ?L" using Inr by blast
        have "?L - set ?imp1 \<subset> ?L - set imported"
          using m_L m_new by auto
        then have dec: "card (?L - set ?imp1) < card (?L - set imported)"
          using fin by (intro psubset_card_mono) auto
        have i1: "set ?ti2 \<inter> set ?imp1 = {}"
          using less.prems(1) by auto
        have i3: "set (opened @ [?m]) \<subseteq> set ?imp1"
          using less.prems(3) by auto
        from less.hyps [OF dec i1 d1 i3, of "dict_update afm (dict_of (prog_functions lp))"]
        show ?thesis using False Inr c by (simp add: import_loop_next)
      qed
    qed
  qed
qed

text \<open>
  Claim C8. When only finitely many modules can be loaded, then whatever element
  \<^verbatim>\<open>pop\<close> chooses, \<^verbatim>\<open>unroll_imports\<close> returns (a program or an error), and no module was
  opened twice on the way.
\<close>

theorem unroll_imports_terminates:
  assumes "finite {m. \<exists>p. load m = Inr p}"
    and "\<forall>xs. xs \<noteq> [] \<longrightarrow> pick xs \<in> set xs"
  shows "\<exists>res opened. unroll_imports pick load prog = Some (res, opened) \<and> distinct opened"
proof (cases "prog_imports prog")
  case None
  then show ?thesis by (simp add: unroll_imports_def)
next
  case (Some ims)
  from import_loop_returns [OF assms, of "remdups ims" "[]" "[]" "dict_of (prog_functions prog)"]
  obtain res tr where
    "import_loop pick load (remdups ims) (dict_of (prog_functions prog)) [] [] = Some (res, tr)"
    "distinct tr" by auto
  then show ?thesis using Some by (cases res) (simp_all add: unroll_imports_def)
qed

subsection \<open>What the loop keeps\<close>

definition well_named :: "func dict \<Rightarrow> bool" where
  "well_named d \<longleftrightarrow> distinct (map fst d) \<and> (\<forall>(k, v) \<in> set d. name v = k)"

lemma well_named_dict_of: "well_named (dict_of fs)"
  using named_dict_of by (auto simp: well_named_def distinct_dict_of)

lemma well_named_update:
  "well_named d \<Longrightarrow> well_named (dict_update d (dict_of fs))"
  using set_dict_update [of d "dict_of fs"] named_dict_of
  by (fastforce simp: well_named_def distinct_dict_update)

lemma import_loop_keeps:
  assumes "import_loop pick0 load0 to_import0 afm0 imported0 opened0 = Some y0"
  shows "well_named afm0 \<longrightarrow>
       (\<forall>d tr. y0 = (Inr d, tr) \<longrightarrow>
          well_named d \<and> (\<forall>n \<in> set (map fst afm0). map_of d n = map_of afm0 n))"
proof (rule import_loop.raw_induct
    [where P = "\<lambda>pick load to_import afm imported opened y. well_named afm \<longrightarrow>
       (\<forall>d tr. y = (Inr d, tr) \<longrightarrow>
          well_named d \<and> (\<forall>n \<in> set (map fst afm). map_of d n = map_of afm n))",
     OF _ assms], goal_cases)
  case (1 loop pick load to_import afm imported opened y)
  show ?case
  proof (intro impI allI)
    fix d tr
    assume wn: "well_named afm" and y: "y = (Inr d, tr)"
    show "well_named d \<and> (\<forall>n \<in> set (map fst afm). map_of d n = map_of afm n)"
    proof (cases "to_import = []")
      case True
      then show ?thesis using 1(2) wn y by simp
    next
      case False
      let ?m = "pick to_import"
      show ?thesis
      proof (cases "load ?m")
        case (Inl e)
        then show ?thesis using 1(2) False y by simp
      next
        case (Inr lp)
        show ?thesis
        proof (cases "colliding lp afm = []")
          case c: False
          then show ?thesis using 1(2) False Inr y by (simp add: colliding_def Let_def)
        next
          case c: True
          let ?afm2 = "dict_update afm (dict_of (prog_functions lp))"
          have "\<exists>ti imp op. loop pick load ti ?afm2 imp op = Some y"
            using 1(2) False Inr c by (auto simp: colliding_def Let_def)
          then obtain ti imp op where rec: "loop pick load ti ?afm2 imp op = Some y" by blast
          have wn2: "well_named ?afm2" using wn by (rule well_named_update)
          from 1(1) [OF rec] wn2 y
          have r: "well_named d" "\<forall>n \<in> set (map fst ?afm2). map_of d n = map_of ?afm2 n"
            by auto
          have "map_of d n = map_of afm n" if n: "n \<in> set (map fst afm)" for n
          proof -
            have "n \<notin> set (map name (prog_functions lp))"
              using c n set_colliding [of lp afm] by auto
            then have "n \<notin> set (map fst (dict_of (prog_functions lp)))"
              unfolding keys_dict_of .
            then have "map_of ?afm2 n = map_of afm n" by (rule map_of_dict_update_old)
            moreover have "n \<in> set (map fst ?afm2)" using n unfolding keys_dict_update by blast
            ultimately show ?thesis using r(2) by metis
          qed
          with r(1) show ?thesis by blast
        qed
      qed
    qed
  qed
qed

lemma import_loop_error_source:
  assumes "import_loop pick0 load0 to_import0 afm0 imported0 opened0 = Some y0"
  shows "\<forall>dups tr. y0 = (Inl (FunctionsDefinedTwice dups), tr) \<longrightarrow>
           tr \<noteq> [] \<and>
           (load0 (last tr) = Inl (FunctionsDefinedTwice dups) \<or>
            (\<exists>lp. load0 (last tr) = Inr lp \<and> set dups \<subseteq> set (map name (prog_functions lp))))"
proof (rule import_loop.raw_induct
    [where P = "\<lambda>pick load to_import afm imported opened y.
       \<forall>dups tr. y = (Inl (FunctionsDefinedTwice dups), tr) \<longrightarrow>
           tr \<noteq> [] \<and>
           (load (last tr) = Inl (FunctionsDefinedTwice dups) \<or>
            (\<exists>lp. load (last tr) = Inr lp \<and> set dups \<subseteq> set (map name (prog_functions lp))))",
     OF _ assms], goal_cases)
  case (1 loop pick load to_import afm imported opened y)
  show ?case
  proof (intro impI allI)
    fix dups tr
    assume y: "y = (Inl (FunctionsDefinedTwice dups), tr)"
    show "tr \<noteq> [] \<and>
           (load (last tr) = Inl (FunctionsDefinedTwice dups) \<or>
            (\<exists>lp. load (last tr) = Inr lp \<and> set dups \<subseteq> set (map name (prog_functions lp))))"
    proof (cases "to_import = []")
      case True
      then show ?thesis using 1(2) y by simp
    next
      case False
      let ?m = "pick to_import"
      show ?thesis
      proof (cases "load ?m")
        case (Inl e)
        then show ?thesis using 1(2) False y by auto
      next
        case (Inr lp)
        show ?thesis
        proof (cases "colliding lp afm = []")
          case c: False
          then have "dups = colliding lp afm" "tr = opened @ [?m]"
            using 1(2) False Inr y by (auto simp: colliding_def Let_def)
          then show ?thesis using Inr set_colliding [of lp afm] by auto
        next
          case c: True
          have "\<exists>ti afm2 imp op. loop pick load ti afm2 imp op = Some y"
            using 1(2) False Inr c by (auto simp: colliding_def Let_def)
          then obtain ti afm2 imp op where rec: "loop pick load ti afm2 imp op = Some y"
            by blast
          from 1(1) [OF rec] y show ?thesis by blast
        qed
      qed
    qed
  qed
qed

text \<open>
  What a run of \<^verbatim>\<open>unroll_imports\<close> that has returned says about a function \<open>f\<close> of the
  program's own list.
\<close>

lemma root_duplicate_kept:
  assumes "unroll_imports pick load prog = Some (res, opened)"
    and "prog_imports prog = Some ims"
    and "f \<in> set (prog_functions prog)"
  shows "map_of (dict_of (prog_functions prog)) (name f) =
           Some (last [g \<leftarrow> prog_functions prog. name g = name f]) \<and>
         (\<forall>result. res = Inr result \<longrightarrow>
            [g \<leftarrow> prog_functions result. name g = name f] =
              [last [g \<leftarrow> prog_functions prog. name g = name f]]) \<and>
         (\<forall>dups. res = Inl (FunctionsDefinedTwice dups) \<longrightarrow>
            opened \<noteq> [] \<and>
            (load (last opened) = Inl (FunctionsDefinedTwice dups) \<or>
             (\<exists>lp. load (last opened) = Inr lp \<and>
                   set dups \<subseteq> set (map name (prog_functions lp)))))"
proof -
  let ?root = "dict_of (prog_functions prog)"
  let ?last = "last [g \<leftarrow> prog_functions prog. name g = name f]"
  have seed: "map_of ?root (name f) = Some ?last"
    using assms(3) by (simp add: map_of_dict_of)
  obtain y where loop: "import_loop pick load (remdups ims) ?root [] [] = Some y"
    using assms(1,2) by (auto simp: unroll_imports_def split: option.splits)
  have rel: "(\<exists>e. y = (Inl e, opened) \<and> res = Inl e) \<or>
             (\<exists>d. y = (Inr d, opened) \<and>
                  res = Inr \<lparr>prog_imports = None, prog_functions = map snd d\<rparr>)"
    using assms(1,2) loop by (auto simp: unroll_imports_def split: sum.splits prod.splits)
  have ok: "[g \<leftarrow> prog_functions result. name g = name f] = [?last]" if h: "res = Inr result"
    for result
  proof -
    obtain d where d: "y = (Inr d, opened)" "prog_functions result = map snd d"
      using rel h by auto
    from import_loop_keeps [OF loop] well_named_dict_of d(1)
    have wd: "well_named d" and keep: "\<forall>n \<in> set (map fst ?root). map_of d n = map_of ?root n"
      by blast+
    have "name f \<in> set (map fst ?root)" using assms(3) unfolding keys_dict_of by simp
    then have "map_of d (name f) = Some ?last" using keep seed by metis
    then show ?thesis
      using values_named [of d "name f"] wd d(2) by (simp add: well_named_def)
  qed
  have err: "opened \<noteq> [] \<and>
            (load (last opened) = Inl (FunctionsDefinedTwice dups) \<or>
             (\<exists>lp. load (last opened) = Inr lp \<and>
                   set dups \<subseteq> set (map name (prog_functions lp))))"
    if "res = Inl (FunctionsDefinedTwice dups)" for dups
  proof -
    have "y = (Inl (FunctionsDefinedTwice dups), opened)"
      using rel that by auto
    with import_loop_error_source [OF loop] show ?thesis by blast
  qed
  from seed ok err show ?thesis by blast
qed

text \<open>
  Claim C9. For a program with the key \<^verbatim>\<open>imports\<close> and a function \<open>f\<close> in its list:
  the map seeded from the list holds, under the name of \<open>f\<close>, the last function of that
  name; a result program has exactly one function of that name, that last one; and a
  duplicate error, if one is raised, is the one a loaded module raised or names only
  functions that the module loaded last defines, so a name repeated in the program's own
  list raises none by itself. And \<^verbatim>\<open>unroll_imports\<close> does return, whatever element
  \<^verbatim>\<open>pop\<close> chooses, when only finitely many modules can be loaded.
\<close>

theorem root_duplicate_collapses:
  assumes "prog_imports prog = Some ims"
    and "f \<in> set (prog_functions prog)"
  shows "map_of (dict_of (prog_functions prog)) (name f) =
           Some (last [g \<leftarrow> prog_functions prog. name g = name f]) \<and>
         (\<forall>res opened. unroll_imports pick load prog = Some (res, opened) \<longrightarrow>
            (\<forall>result. res = Inr result \<longrightarrow>
               [g \<leftarrow> prog_functions result. name g = name f] =
                 [last [g \<leftarrow> prog_functions prog. name g = name f]]) \<and>
            (\<forall>dups. res = Inl (FunctionsDefinedTwice dups) \<longrightarrow>
               opened \<noteq> [] \<and>
               (load (last opened) = Inl (FunctionsDefinedTwice dups) \<or>
                (\<exists>lp. load (last opened) = Inr lp \<and>
                      set dups \<subseteq> set (map name (prog_functions lp)))))) \<and>
         (finite {m. \<exists>p. load m = Inr p} \<and> (\<forall>xs. xs \<noteq> [] \<longrightarrow> pick xs \<in> set xs) \<longrightarrow>
            (\<exists>res opened. unroll_imports pick load prog = Some (res, opened)))"
proof -
  have seed: "map_of (dict_of (prog_functions prog)) (name f) =
           Some (last [g \<leftarrow> prog_functions prog. name g = name f])"
    using assms(2) by (simp add: map_of_dict_of)
  have kept: "(\<forall>result. res = Inr result \<longrightarrow>
               [g \<leftarrow> prog_functions result. name g = name f] =
                 [last [g \<leftarrow> prog_functions prog. name g = name f]]) \<and>
            (\<forall>dups. res = Inl (FunctionsDefinedTwice dups) \<longrightarrow>
               opened \<noteq> [] \<and>
               (load (last opened) = Inl (FunctionsDefinedTwice dups) \<or>
                (\<exists>lp. load (last opened) = Inr lp \<and>
                      set dups \<subseteq> set (map name (prog_functions lp)))))"
    if "unroll_imports pick load prog = Some (res, opened)" for res opened
    using root_duplicate_kept [OF that assms] by blast
  have returns: "\<exists>res opened. unroll_imports pick load prog = Some (res, opened)"
    if fin: "finite {m. \<exists>p. load m = Inr p}" and pick: "\<forall>xs. xs \<noteq> [] \<longrightarrow> pick xs \<in> set xs"
  proof -
    from import_loop_returns [OF fin pick, of "remdups ims" "[]" "[]"
        "dict_of (prog_functions prog)"]
    obtain r tr where
      "import_loop pick load (remdups ims) (dict_of (prog_functions prog)) [] [] = Some (r, tr)"
      by auto
    then show ?thesis using assms(1) by (cases r) (simp_all add: unroll_imports_def)
  qed
  from seed kept returns show ?thesis by blast
qed

text \<open>
  Claim C7, amended. Without the key \<^verbatim>\<open>imports\<close> the program is returned as it is. With
  an empty list of imports the loop does not run, and the result has no key \<^verbatim>\<open>imports\<close>
  and the functions of the map seeded from the program's list: one function per name
  (by \<open>map_of_dict_of\<close> the last of that name). When the names in the list are distinct,
  these are the same functions in the same order.
\<close>

theorem unroll_without_imports:
  "(prog_imports prog = None \<longrightarrow> unroll_imports pick load prog = Some (Inr prog, [])) \<and>
   (prog_imports prog = Some [] \<longrightarrow>
      unroll_imports pick load prog =
        Some (Inr \<lparr>prog_imports = None,
                   prog_functions = map snd (dict_of (prog_functions prog))\<rparr>, [])) \<and>
   (prog_imports prog = Some [] \<and> distinct (map name (prog_functions prog)) \<longrightarrow>
      unroll_imports pick load prog =
        Some (Inr \<lparr>prog_imports = None, prog_functions = prog_functions prog\<rparr>, []))"
  by (simp add: unroll_imports_def import_loop_done values_dict_of_distinct)

subsection \<open>A small file system\<close>

text \<open>Two modules that import each other: \<^verbatim>\<open>b.bril\<close> defines \<^verbatim>\<open>helper\<close>, \<^verbatim>\<open>c.bril\<close> defines
  \<^verbatim>\<open>util\<close>.\<close>

definition module_files :: "string \<Rightarrow> string option" where
  "module_files =
     map_of [(''b.bril'', ''import c; helper { nop; }''),
             (''c.bril'', ''import b; util { ret; }'')]"

definition main1 :: func where
  "main1 = Function ''main'' [] None [Const ''x'' ''int'' (IntLit 1)]"

definition main2 :: func where
  "main2 = Function ''main'' [] None [Const ''x'' ''int'' (IntLit 2)]"

definition helper0 :: func where
  "helper0 = Function ''helper'' [] None [EffectOp ''ret'' []]"

lemma module_files_finite: "finite {m. \<exists>p. load_module module_files m = Inr p}"
proof (rule finite_subset)
  show "{m. \<exists>p. load_module module_files m = Inr p} \<subseteq> {''b'', ''c''}"
    by (auto simp: load_module_def module_files_def split: option.splits if_splits)
qed simp

lemma hd_picks: "\<forall>xs. xs \<noteq> [] \<longrightarrow> hd xs \<in> set xs"
  by simp

lemma load_b:
  "load_module module_files ''b'' =
     Inr \<lparr>prog_imports = Some [''c''],
          prog_functions = [Function ''helper'' [] None [EffectOp ''nop'' []]]\<rparr>"
  by code_simp

theorem import_collision_raises_witness:
  "(\<exists>dups. import_loop hd (load_module module_files) [''b''] [(''helper'', helper0)] [] [] =
            Some (Inl (FunctionsDefinedTwice dups), [''b'']) \<and> set dups = {''helper''}) \<and>
   (\<exists>dups. unroll_imports hd (load_module module_files)
              \<lparr>prog_imports = Some [''b''], prog_functions = [main1, helper0]\<rparr> =
            Some (Inl (FunctionsDefinedTwice dups), [''b'']) \<and> set dups = {''helper''})"
proof -
  let ?lp = "\<lparr>prog_imports = Some [''c''],
          prog_functions = [Function ''helper'' [] None [EffectOp ''nop'' []]]\<rparr>"
  let ?prog = "\<lparr>prog_imports = Some [''b''], prog_functions = [main1, helper0]\<rparr>"
  have a: "[''b''] \<noteq> [] \<and> load_module module_files (hd [''b'']) = Inr ?lp \<and>
      set (map name (prog_functions ?lp)) \<inter> set (map fst [(''helper'', helper0)]) \<noteq> {}"
    using load_b by simp
  have b: "prog_imports ?prog = Some [''b''] \<and> hd [''b''] = ''b'' \<and>
      load_module module_files ''b'' = Inr ?lp \<and>
      set (map name (prog_functions ?lp)) \<inter> set (map name (prog_functions ?prog)) \<noteq> {}"
    using load_b by (simp add: helper0_def)
  have s1: "set (map name (prog_functions ?lp)) \<inter> set (map fst [(''helper'', helper0)])
      = {''helper''}" by simp
  have s2: "set (map name (prog_functions ?lp)) \<inter> set (map name (prog_functions ?prog))
      = {''helper''}" by (simp add: helper0_def main1_def)
  note t = import_collision_raises
    [of "[''b'']" "load_module module_files" hd ?lp "[(''helper'', helper0)]" "[]" "[]"
        ?prog "''b''"]
  from t a have
    "\<exists>dups. import_loop hd (load_module module_files) [''b''] [(''helper'', helper0)] [] [] =
            Some (Inl (FunctionsDefinedTwice dups), [] @ [hd [''b'']]) \<and>
          set dups = set (map name (prog_functions ?lp)) \<inter> set (map fst [(''helper'', helper0)])"
    by blast
  then have c1:
    "\<exists>dups. import_loop hd (load_module module_files) [''b''] [(''helper'', helper0)] [] [] =
            Some (Inl (FunctionsDefinedTwice dups), [''b'']) \<and> set dups = {''helper''}"
    unfolding s1 by simp
  from t b have
    "\<exists>dups. unroll_imports hd (load_module module_files) ?prog =
            Some (Inl (FunctionsDefinedTwice dups), [''b'']) \<and>
          set dups = set (map name (prog_functions ?lp)) \<inter> set (map name (prog_functions ?prog))"
    by blast
  then have c2:
    "\<exists>dups. unroll_imports hd (load_module module_files) ?prog =
            Some (Inl (FunctionsDefinedTwice dups), [''b'']) \<and> set dups = {''helper''}"
    unfolding s2 .
  from c1 c2 show ?thesis by blast
qed

theorem unroll_imports_terminates_witness:
  "finite {m. \<exists>p. load_module module_files m = Inr p} \<and>
   (\<exists>res opened.
      unroll_imports hd (load_module module_files)
        \<lparr>prog_imports = Some [''b'', ''c''], prog_functions = [main1]\<rparr> = Some (res, opened) \<and>
      distinct opened)"
  using unroll_imports_terminates [OF module_files_finite hd_picks] module_files_finite
  by simp

theorem root_duplicate_collapses_witness:
  "unroll_imports hd (load_module module_files)
     \<lparr>prog_imports = Some [''b''], prog_functions = [main1, main2]\<rparr> =
     Some (Inr \<lparr>prog_imports = None,
               prog_functions =
                 [main2, Function ''helper'' [] None [EffectOp ''nop'' []],
                  Function ''util'' [] None [EffectOp ''ret'' []]]\<rparr>, [''b'', ''c'']) \<and>
   [g \<leftarrow> [main2, Function ''helper'' [] None [EffectOp ''nop'' []],
           Function ''util'' [] None [EffectOp ''ret'' []]]. name g = name main1] =
     [last [g \<leftarrow> [main1, main2]. name g = name main1]] \<and>
   last [g \<leftarrow> [main1, main2]. name g = name main1] = main2 \<and>
   finite {m. \<exists>p. load_module module_files m = Inr p} \<and>
   (\<exists>res opened. unroll_imports hd (load_module module_files)
      \<lparr>prog_imports = Some [''b''], prog_functions = [main1, main2]\<rparr> = Some (res, opened))"
proof -
  let ?prog = "\<lparr>prog_imports = Some [''b''], prog_functions = [main1, main2]\<rparr>"
  let ?res = "\<lparr>prog_imports = None,
               prog_functions =
                 [main2, Function ''helper'' [] None [EffectOp ''nop'' []],
                  Function ''util'' [] None [EffectOp ''ret'' []]]\<rparr>"
  have e: "unroll_imports hd (load_module module_files) ?prog = Some (Inr ?res, [''b'', ''c''])"
    by code_simp
  have l: "last [g \<leftarrow> [main1, main2]. name g = name main1] = main2"
    by (simp add: main1_def main2_def)
  have i: "prog_imports ?prog = Some [''b'']" and m: "main1 \<in> set (prog_functions ?prog)"
    by simp_all
  note t = root_duplicate_collapses [OF i m, of hd "load_module module_files"]
  from t e have "[g \<leftarrow> prog_functions ?res. name g = name main1] =
          [last [g \<leftarrow> prog_functions ?prog. name g = name main1]]"
    by blast
  then have k: "[g \<leftarrow> [main2, Function ''helper'' [] None [EffectOp ''nop'' []],
           Function ''util'' [] None [EffectOp ''ret'' []]]. name g = name main1] =
     [last [g \<leftarrow> [main1, main2]. name g = name main1]]"
    by simp
  from t module_files_finite hd_picks
  have r: "\<exists>res opened. unroll_imports hd (load_module module_files) ?prog = Some (res, opened)"
    by blast
  from e k l module_files_finite r show ?thesis by blast
qed

text \<open>The claim C7 as stated fails for an empty list of imports when two functions share a
  name: one of them is dropped.\<close>

theorem unroll_empty_imports_drops_duplicate:
  "unroll_imports hd (load_module module_files)
     \<lparr>prog_imports = Some [], prog_functions = [main1, main2]\<rparr> =
     Some (Inr \<lparr>prog_imports = None, prog_functions = [main2]\<rparr>, []) \<and>
   [main2] \<noteq> [main1, main2]"
  by code_simp

theorem unroll_without_imports_witness:
  "unroll_imports hd (load_module module_files)
     \<lparr>prog_imports = None, prog_functions = [main1, main2]\<rparr> =
     Some (Inr \<lparr>prog_imports = None, prog_functions = [main1, main2]\<rparr>, []) \<and>
   unroll_imports hd (load_module module_files)
     \<lparr>prog_imports = Some [], prog_functions = [main1, main2]\<rparr> =
     Some (Inr \<lparr>prog_imports = None,
               prog_functions = map snd (dict_of [main1, main2])\<rparr>, []) \<and>
   distinct (map name [main1, helper0]) \<and>
   unroll_imports hd (load_module module_files)
     \<lparr>prog_imports = Some [], prog_functions = [main1, helper0]\<rparr> =
     Some (Inr \<lparr>prog_imports = None, prog_functions = [main1, helper0]\<rparr>, [])"
proof -
  let ?load = "load_module module_files"
  have d: "distinct (map name [main1, helper0])" by (simp add: main1_def helper0_def)
  have a: "unroll_imports hd ?load \<lparr>prog_imports = None, prog_functions = [main1, main2]\<rparr> =
     Some (Inr \<lparr>prog_imports = None, prog_functions = [main1, main2]\<rparr>, [])"
    using unroll_without_imports
        [of "\<lparr>prog_imports = None, prog_functions = [main1, main2]\<rparr>" hd ?load]
    by simp
  have b: "unroll_imports hd ?load \<lparr>prog_imports = Some [], prog_functions = [main1, main2]\<rparr> =
     Some (Inr \<lparr>prog_imports = None,
               prog_functions = map snd (dict_of [main1, main2])\<rparr>, [])"
    using unroll_without_imports
        [of "\<lparr>prog_imports = Some [], prog_functions = [main1, main2]\<rparr>" hd ?load]
    by simp
  have "prog_imports \<lparr>prog_imports = Some [], prog_functions = [main1, helper0]\<rparr> = Some [] \<and>
        distinct (map name (prog_functions
           \<lparr>prog_imports = Some [], prog_functions = [main1, helper0]\<rparr>))"
    using d by simp
  with unroll_without_imports
        [of "\<lparr>prog_imports = Some [], prog_functions = [main1, helper0]\<rparr>" hd ?load]
  have c: "unroll_imports hd ?load \<lparr>prog_imports = Some [], prog_functions = [main1, helper0]\<rparr> =
     Some (Inr \<lparr>prog_imports = None,
               prog_functions = prog_functions
                  \<lparr>prog_imports = Some [], prog_functions = [main1, helper0]\<rparr>\<rparr>, [])"
    by blast
  from a b c d show ?thesis by simp
qed


section \<open>Printing and parsing again\<close>

subsection \<open>Tokens\<close>

text \<open>A string that is, as a whole, a \<^verbatim>\<open>CNAME\<close> or an \<^verbatim>\<open>IDENT\<close>.\<close>

definition cname_ok :: "string \<Rightarrow> bool" where
  "cname_ok w \<longleftrightarrow> w \<noteq> [] \<and> cname_start (hd w) \<and> list_all cname_char (tl w)"

definition ident_ok :: "string \<Rightarrow> bool" where
  "ident_ok w \<longleftrightarrow> w \<noteq> [] \<and> ident_start (hd w) \<and> list_all ident_char (tl w)"

lemma letter_plain: "LETTER c \<Longrightarrow> \<not> WS c \<and> c \<noteq> CHR ''#'' \<and> \<not> DIGIT c"
  unfolding LETTER_def WS_def DIGIT_def by auto

lemma digit_plain: "DIGIT c \<Longrightarrow> \<not> WS c \<and> c \<noteq> CHR ''#''"
  unfolding WS_def DIGIT_def by auto

lemma start_plain:
  "cname_start c \<Longrightarrow> \<not> WS c \<and> c \<noteq> CHR ''#''"
  "ident_start c \<Longrightarrow> \<not> WS c \<and> c \<noteq> CHR ''#''"
  using letter_plain [of c] unfolding cname_start_def ident_start_def WS_def by auto

lemma punct:
  "\<not> ident_char (CHR '' '')" "\<not> ident_char (CHR '':'')" "\<not> ident_char (CHR '';'')"
  "\<not> ident_char (CHR ''{'')" "\<not> ident_char (CHR ''}'')" "\<not> ident_char (CHR ''='')"
  "\<not> ident_char (CHR 0x0A)"
  unfolding ident_char_def LETTER_def DIGIT_def by simp_all

lemma cname_ident: "cname_char c \<Longrightarrow> ident_char c" "cname_start c \<Longrightarrow> ident_start c"
  "ident_start c \<Longrightarrow> ident_char c" "cname_start c \<Longrightarrow> cname_char c"
  unfolding cname_char_def ident_char_def cname_start_def ident_start_def by auto

lemma ws_chars: "WS (CHR '' '')" "WS (CHR 0x0A)"
  unfolding WS_def by simp_all

lemma ignore_plain: "\<not> WS c \<Longrightarrow> c \<noteq> CHR ''#'' \<Longrightarrow> ignore (c # s) = c # s"
  by simp

lemma ignore_idem: "ignore (ignore s) = ignore s" "ignore (ignore_comment s) = ignore_comment s"
  by (induction s and s rule: ignore_ignore_comment.induct) auto

lemma takeWhile_all:
  "list_all P xs \<Longrightarrow> r = [] \<or> \<not> P (hd r) \<Longrightarrow>
     takeWhile P (xs @ r) = xs \<and> dropWhile P (xs @ r) = r"
  by (induction xs) (cases r; auto)+

lemma scan_exact:
  assumes "ignore s = w @ r" "w \<noteq> []" "start (hd w)" "list_all cont (tl w)"
    "r = [] \<or> \<not> cont (hd r)"
  shows "scan start cont s = Some (w, r)"
proof -
  obtain c cs where w: "w = c # cs" using assms(2) by (cases w) auto
  have "takeWhile cont (cs @ r) = cs \<and> dropWhile cont (cs @ r) = r"
    using assms(4,5) w by (intro takeWhile_all) auto
  then show ?thesis using assms(1,3) w by (simp add: scan_def)
qed

lemma CNAME_exact:
  "ignore s = w @ r \<Longrightarrow> cname_ok w \<Longrightarrow> r = [] \<or> \<not> cname_char (hd r) \<Longrightarrow>
     CNAME s = Some (w, r)"
  unfolding CNAME_def cname_ok_def by (intro scan_exact) auto

lemma IDENT_exact:
  "ignore s = w @ r \<Longrightarrow> ident_ok w \<Longrightarrow> r = [] \<or> \<not> ident_char (hd r) \<Longrightarrow>
     IDENT s = Some (w, r)"
  unfolding IDENT_def ident_ok_def by (intro scan_exact) auto

lemma keyword_exact: "ignore s = k @ r \<Longrightarrow> keyword k s = Some r"
  by (simp add: keyword_def)

lemma keyword_other:
  "ignore s = c # r \<Longrightarrow> k \<noteq> [] \<Longrightarrow> hd k \<noteq> c \<Longrightarrow> keyword k s = None"
  by (cases k) (auto simp: keyword_def)

lemma scan_other: "ignore s = c # r \<Longrightarrow> \<not> start c \<Longrightarrow> scan start cont s = None"
  by (simp add: scan_def)

lemma ignore_word:
  "cname_ok w \<Longrightarrow> ignore (w @ r) = w @ r"
  "ident_ok w \<Longrightarrow> ignore (w @ r) = w @ r"
  using start_plain by (cases w; auto simp: cname_ok_def ident_ok_def)+

subsection \<open>Integers\<close>

lemma digit_chars: "map digit_char [0, 1, 2, 3, 4, 5, 6, 7, 8, 9] = ''0123456789''"
  by code_simp

lemma digit_char_digit: "d < 10 \<Longrightarrow> DIGIT (digit_char d)"
proof -
  assume "d < 10"
  then have "d \<in> set [0, 1, 2, 3, 4, 5, 6, 7, 8, 9]" by auto
  then have "digit_char d \<in> set (map digit_char [0, 1, 2, 3, 4, 5, 6, 7, 8, 9])"
    unfolding set_map by (rule imageI)
  then show ?thesis unfolding digit_chars DIGIT_def .
qed

lemma digit_val_char: "d < 10 \<Longrightarrow> digit_val (digit_char d) = d"
  by (simp add: digit_val_def digit_char_def)

lemma str_nat_digits: "str_nat n \<noteq> [] \<and> list_all DIGIT (str_nat n)"
proof (induction n rule: str_nat.induct)
  case (1 n)
  show ?case
  proof (cases "n < 10")
    case True
    then show ?thesis by (subst (1 2) str_nat.simps) (simp add: digit_char_digit)
  next
    case False
    then show ?thesis using 1 by (subst (1 2) str_nat.simps) (simp add: digit_char_digit)
  qed
qed

lemma nat_of_digits_snoc: "nat_of_digits (ds @ [c]) = 10 * nat_of_digits ds + digit_val c"
  by (simp add: nat_of_digits_def)

lemma nat_of_str_nat: "nat_of_digits (str_nat n) = n"
proof (induction n rule: str_nat.induct)
  case (1 n)
  show ?case
  proof (cases "n < 10")
    case True
    then show ?thesis
      by (subst str_nat.simps) (simp add: nat_of_digits_def digit_val_char)
  next
    case False
    then have "nat_of_digits (str_nat (n div 10) @ [digit_char (n mod 10)]) = n"
      using 1 by (simp add: nat_of_digits_snoc digit_val_char)
    then show ?thesis using False by (subst str_nat.simps) simp
  qed
qed

lemma digit_not_sign: "DIGIT c \<Longrightarrow> c \<noteq> CHR ''+'' \<and> c \<noteq> CHR ''-''"
  unfolding DIGIT_def by auto

lemma py_int_str_int: "py_int (str_int i) = Inr i"
proof (cases "i < 0")
  case True
  then show ?thesis
    using str_nat_digits [of "nat (- i)"] nat_of_str_nat [of "nat (- i)"]
    by (simp add: py_int_def str_int_def)
next
  case False
  obtain c cs where s: "str_nat (nat i) = c # cs"
    using str_nat_digits [of "nat i"] by (cases "str_nat (nat i)") auto
  have d: "DIGIT c" "list_all DIGIT cs" using str_nat_digits [of "nat i"] s by auto
  have "nat_of_digits (c # cs) = nat i" using nat_of_str_nat [of "nat i"] s by simp
  then show ?thesis
    using False s d digit_not_sign [OF d(1)] by (simp add: py_int_def str_int_def)
qed

lemma SIGNED_INT_str_int:
  assumes "r = [] \<or> \<not> DIGIT (hd r)"
  shows "SIGNED_INT (str_int i @ r) = Some (str_int i, r)"
proof -
  obtain n where n: "n = (if i < 0 then nat (- i) else nat i)" by simp
  obtain c cs where s: "str_nat n = c # cs"
    using str_nat_digits [of n] by (cases "str_nat n") auto
  have d: "DIGIT c" "list_all DIGIT cs" using str_nat_digits [of n] s by auto
  have t: "takeWhile DIGIT (xs @ r) = xs \<and> dropWhile DIGIT (xs @ r) = r"
    if "list_all DIGIT xs" for xs
    using that assms by (rule takeWhile_all)
  show ?thesis
  proof (cases "i < 0")
    case True
    then have "str_int i = CHR ''-'' # c # cs" using n s by (simp add: str_int_def)
    then show ?thesis using t [of "c # cs"] d by (simp add: SIGNED_INT_def WS_def)
  next
    case False
    then have "str_int i = c # cs" using n s by (simp add: str_int_def)
    then show ?thesis
      using t [of cs] d digit_plain [OF d(1)] digit_not_sign [OF d(1)]
      by (simp add: SIGNED_INT_def)
  qed
qed

subsection \<open>The text and the tree of an item\<close>

text \<open>The line the printer writes for an item, and the tree the grammar gives it.\<close>

fun item_line :: "item \<Rightarrow> string" where
  "item_line (Const d t v) = ''  '' @ d @ '': '' @ t @ '' = const '' @ str_lower v @ '';''"
| "item_line (ValueOp d t opn as) =
     ''  '' @ d @ '': '' @ t @ '' = '' @ opn @ '' '' @ join '' '' as @ '';''"
| "item_line (EffectOp opn as) = ''  '' @ opn @ '' '' @ join '' '' as @ '';''"
| "item_line (Label l) = l @ '':''"
| "item_line (FuncItem f) = []"

fun lit_tree :: "lit \<Rightarrow> tree" where
  "lit_tree (IntLit n) = Tree ''int'' [Token ''SIGNED_INT'' (str_int n)]"
| "lit_tree (BoolLit b) = Tree ''bool'' [Token ''BOOL'' (if b then ''true'' else ''false'')]"

fun item_tree :: "item \<Rightarrow> tree" where
  "item_tree (Const d t v) =
     Tree ''const'' [Token ''IDENT'' d, Tree ''type'' [Token ''CNAME'' t], lit_tree v]"
| "item_tree (ValueOp d t opn as) =
     Tree ''vop'' ([Token ''IDENT'' d, Tree ''type'' [Token ''CNAME'' t], Token ''CNAME'' opn] @
                  map (Token ''IDENT'') as)"
| "item_tree (EffectOp opn as) = Tree ''eop'' (Token ''CNAME'' opn # map (Token ''IDENT'') as)"
| "item_tree (Label l) = Tree ''label'' [Token ''IDENT'' l]"
| "item_tree (FuncItem f) = Tree ''def_func'' []"

lemma p_lit_printed:
  "p_lit (CHR '' '' # str_lower v @ CHR '';'' # r) = Some (lit_tree v, CHR '';'' # r)"
proof (cases v)
  case (IntLit n)
  have "\<not> DIGIT (CHR '';'')" by (simp add: DIGIT_def)
  then have "SIGNED_INT (str_int n @ CHR '';'' # r) = Some (str_int n, CHR '';'' # r)"
    by (intro SIGNED_INT_str_int) simp
  moreover have "SIGNED_INT (CHR '' '' # s) = SIGNED_INT s" for s
    by (simp add: SIGNED_INT_def ws_chars)
  ultimately show ?thesis using IntLit by (simp add: p_lit_def)
next
  case (BoolLit b)
  then show ?thesis
    by (simp add: p_lit_def SIGNED_INT_def BOOL_def keyword_def ws_chars WS_def DIGIT_def)
qed

lemma transform_lit_tree:
  "transform (lit_tree v) = Inr (case v of IntLit n \<Rightarrow> VInt n | BoolLit b \<Rightarrow> VBool b)"
  by (cases v) (simp_all add: callback_def t_int_def t_bool_def py_int_str_int)

lemma p_type_exact:
  "ignore s = t @ r \<Longrightarrow> cname_ok t \<Longrightarrow> r = [] \<or> \<not> cname_char (hd r) \<Longrightarrow>
     p_type s = Some (Tree ''type'' [Token ''CNAME'' t], r)"
  by (simp add: p_type_def CNAME_exact)

text \<open>What follows a destination in a constant or a value operation: the colon, the
  type and the equals sign.\<close>

lemma typed_prefix:
  assumes "ignore s = d @ '': '' @ t @ '' = '' @ r" "ident_ok d" "cname_ok t"
  shows "IDENT s = Some (d, '': '' @ t @ '' = '' @ r)"
    and "keyword '':'' ('': '' @ t @ '' = '' @ r) = Some ('' '' @ t @ '' = '' @ r)"
    and "p_type ('' '' @ t @ '' = '' @ r) = Some (Tree ''type'' [Token ''CNAME'' t], '' = '' @ r)"
    and "keyword ''='' ('' = '' @ r) = Some ('' '' @ r)"
proof -
  show "IDENT s = Some (d, '': '' @ t @ '' = '' @ r)"
    using assms(1,2) by (intro IDENT_exact) (simp_all add: punct)
  show "keyword '':'' ('': '' @ t @ '' = '' @ r) = Some ('' '' @ t @ '' = '' @ r)"
    by (simp add: keyword_def WS_def)
  have "\<not> cname_char (CHR '' '')" using cname_ident(1) punct(1) by blast
  then show "p_type ('' '' @ t @ '' = '' @ r) =
      Some (Tree ''type'' [Token ''CNAME'' t], '' = '' @ r)"
    using assms(3) by (intro p_type_exact) (simp_all add: ws_chars ignore_word)
  show "keyword ''='' ('' = '' @ r) = Some ('' '' @ r)"
    by (simp add: keyword_def WS_def)
qed

lemma p_const_printed:
  assumes "ignore s = d @ '': '' @ t @ '' = const '' @ str_lower v @ '';'' @ r"
    "ident_ok d" "cname_ok t"
  shows "p_const s = Some (item_tree (Const d t v), r)"
proof -
  have i: "ignore s = d @ '': '' @ t @ '' = '' @ (''const '' @ str_lower v @ '';'' @ r)"
    using assms(1) by simp
  note p = typed_prefix [OF i assms(2,3)]
  have k: "keyword ''const'' ('' '' @ ''const '' @ str_lower v @ '';'' @ r) =
      Some ('' '' @ str_lower v @ '';'' @ r)"
    by (simp add: keyword_def WS_def)
  have l: "p_lit ('' '' @ str_lower v @ '';'' @ r) = Some (lit_tree v, '';'' @ r)"
    using p_lit_printed [of v r] by simp
  have e: "keyword '';'' ('';'' @ r) = Some r" by (simp add: keyword_def WS_def)
  show ?thesis unfolding p_const_def using p k l e by simp
qed

subsection \<open>Arguments\<close>

lemma join_spaced:
  "as \<noteq> [] \<Longrightarrow> '' '' @ join '' '' as = concat (map (\<lambda>a. CHR '' '' # a) as)"
  by (induction "'' ''" as rule: join.induct) simp_all

lemma idents_upto_spaced:
  "list_all ident_ok as \<Longrightarrow> length as \<le> n \<Longrightarrow> IDENT y = None \<Longrightarrow>
   y \<noteq> [] \<and> \<not> ident_char (hd y) \<Longrightarrow>
     idents_upto n (concat (map (\<lambda>a. CHR '' '' # a) as) @ y) = (map (Token ''IDENT'') as, y)"
proof (induction as arbitrary: n)
  case Nil
  then show ?case by (cases n) simp_all
next
  case (Cons a as)
  then obtain m where n: "n = Suc m" "length as \<le> m" by (cases n) auto
  let ?rest = "concat (map (\<lambda>a. CHR '' '' # a) as) @ y"
  have r: "?rest = [] \<or> \<not> ident_char (hd ?rest)"
    using Cons.prems(4) by (cases as) (simp_all add: punct)
  have "ignore (CHR '' '' # a @ ?rest) = a @ ?rest"
    using Cons.prems(1) by (simp add: ws_chars ignore_word)
  then have "IDENT (CHR '' '' # a @ ?rest) = Some (a, ?rest)"
    using Cons.prems(1) r by (intro IDENT_exact) simp_all
  moreover have "idents_upto m ?rest = (map (Token ''IDENT'') as, y)"
    using Cons n by simp
  ultimately show ?case using n by simp
qed

lemma length_spaced: "length as \<le> length (concat (map (\<lambda>a. CHR '' '' # a) as))"
  by (induction as) simp_all

lemma idents_printed:
  assumes "list_all ident_ok as"
  shows "\<exists>y. idents ('' '' @ join '' '' as @ '';'' @ r) = (map (Token ''IDENT'') as, y) \<and>
             keyword '';'' y = Some r"
proof (cases "as = []")
  case True
  have "IDENT ('' ;'' @ r) = None"
    by (simp add: IDENT_def scan_def ws_chars WS_def ident_start_def LETTER_def)
  then have "idents_upto n ('' ;'' @ r) = ([], '' ;'' @ r)" for n
    by (cases n) simp_all
  moreover have "keyword '';'' ('' ;'' @ r) = Some r" by (simp add: keyword_def ws_chars WS_def)
  ultimately show ?thesis using True by (simp add: idents_def)
next
  case False
  let ?y = "'';'' @ r"
  have n: "IDENT ?y = None"
    by (simp add: IDENT_def scan_def WS_def ident_start_def LETTER_def)
  have t: "'' '' @ join '' '' as @ '';'' @ r = concat (map (\<lambda>a. CHR '' '' # a) as) @ ?y"
    using join_spaced [OF False] by (metis append.assoc)
  have "length as \<le> length (concat (map (\<lambda>a. CHR '' '' # a) as) @ ?y)"
    using length_spaced [of as] by simp
  then have "idents_upto (length (concat (map (\<lambda>a. CHR '' '' # a) as) @ ?y))
       (concat (map (\<lambda>a. CHR '' '' # a) as) @ ?y) = (map (Token ''IDENT'') as, ?y)"
    using assms n by (intro idents_upto_spaced) (simp_all add: punct)
  moreover have "keyword '';'' ?y = Some r" by (simp add: keyword_def WS_def)
  ultimately show ?thesis unfolding idents_def t by blast
qed

subsection \<open>Each item parses back\<close>

lemma not_cname_space: "\<not> cname_char (CHR '' '')"
  using cname_ident(1) punct(1) by blast

lemma p_vop_printed:
  assumes "ignore s = d @ '': '' @ t @ '' = '' @ opn @ '' '' @ join '' '' as @ '';'' @ r"
    "ident_ok d" "cname_ok t" "cname_ok opn" "list_all ident_ok as"
  shows "p_vop s = Some (item_tree (ValueOp d t opn as), r)"
proof -
  note p = typed_prefix [OF assms(1,2,3)]
  have c: "CNAME ('' '' @ opn @ '' '' @ join '' '' as @ '';'' @ r) =
      Some (opn, '' '' @ join '' '' as @ '';'' @ r)"
    using assms(4) not_cname_space by (intro CNAME_exact) (simp_all add: ws_chars ignore_word)
  from idents_printed [OF assms(5), of r] obtain y where
    y: "idents ('' '' @ join '' '' as @ '';'' @ r) = (map (Token ''IDENT'') as, y)"
       "keyword '';'' y = Some r" by blast
  show ?thesis unfolding p_vop_def using p c y by simp
qed

lemma p_eop_printed:
  assumes "ignore s = opn @ '' '' @ join '' '' as @ '';'' @ r"
    "cname_ok opn" "list_all ident_ok as"
  shows "p_eop s = Some (item_tree (EffectOp opn as), r)"
proof -
  have c: "CNAME s = Some (opn, '' '' @ join '' '' as @ '';'' @ r)"
    using assms(1,2) not_cname_space by (intro CNAME_exact) simp_all
  from idents_printed [OF assms(3), of r] obtain y where
    y: "idents ('' '' @ join '' '' as @ '';'' @ r) = (map (Token ''IDENT'') as, y)"
       "keyword '';'' y = Some r" by blast
  show ?thesis unfolding p_eop_def using c y by simp
qed

lemma p_label_printed:
  assumes "ignore s = l @ '':'' @ r" "ident_ok l"
  shows "p_label s = Some (item_tree (Label l), r)"
proof -
  have "IDENT s = Some (l, '':'' @ r)"
    using assms by (intro IDENT_exact) (simp_all add: punct)
  moreover have "keyword '':'' ('':'' @ r) = Some r" by (simp add: keyword_def WS_def)
  ultimately show ?thesis unfolding p_label_def by simp
qed

subsection \<open>The alternatives of higher priority do not apply\<close>

lemma ident_plain:
  "ident_char c \<Longrightarrow> \<not> WS c \<and> c \<noteq> CHR ''#'' \<and> c \<noteq> CHR ''='' \<and> c \<noteq> CHR '';'' \<and>
     c \<noteq> CHR '':'' \<and> c \<noteq> CHR ''}'' \<and> c \<noteq> CHR '' ''"
  using letter_plain [of c] digit_plain [of c] punct
  unfolding ident_char_def WS_def by auto

lemma after_args:
  assumes "list_all ident_ok as"
  shows "\<exists>c z. ignore ('' '' @ join '' '' as @ '';'' @ r) = c # z \<and> (c = CHR '';'' \<or> ident_start c)"
proof (cases as)
  case Nil
  then show ?thesis by (simp add: ws_chars WS_def)
next
  case (Cons a as')
  then obtain c cs where a: "a = c # cs" "ident_start c"
    using assms by (cases a) (auto simp: ident_ok_def)
  have "\<exists>z. join '' '' (a # as') = c # z" using a by (cases as') simp_all
  then obtain z where "join '' '' as = c # z" using Cons by blast
  then show ?thesis using a(2) start_plain(2) [OF a(2)] by (simp add: ws_chars)
qed

lemma after_args_keyword:
  assumes "list_all ident_ok as"
  shows "keyword '':'' ('' '' @ join '' '' as @ '';'' @ r) = None"
    and "keyword ''='' ('' '' @ join '' '' as @ '';'' @ r) = None"
proof -
  from after_args [OF assms, of r] obtain c z where
    c: "ignore ('' '' @ join '' '' as @ '';'' @ r) = c # z" "c = CHR '';'' \<or> ident_start c"
    by blast
  have "c \<noteq> CHR '':'' \<and> c \<noteq> CHR ''=''" using c(2) ident_plain [of c] cname_ident(3) by auto
  then show "keyword '':'' ('' '' @ join '' '' as @ '';'' @ r) = None"
    and "keyword ''='' ('' '' @ join '' '' as @ '';'' @ r) = None"
    using c(1) by (auto intro: keyword_other)
qed

lemma eop_not_typed:
  assumes "ignore s = opn @ '' '' @ join '' '' as @ '';'' @ r" "cname_ok opn"
    "list_all ident_ok as"
  shows "p_const s = None" "p_vop s = None"
proof -
  have "ident_ok opn" using assms(2) cname_ident
    by (auto simp: cname_ok_def ident_ok_def list_all_iff)
  then have "IDENT s = Some (opn, '' '' @ join '' '' as @ '';'' @ r)"
    using assms(1) by (intro IDENT_exact) (simp_all add: punct)
  then show "p_const s = None" "p_vop s = None"
    using after_args_keyword(1) [OF assms(3), of r] by (simp_all add: p_const_def p_vop_def)
qed

lemma span_other:
  "\<not> P c \<Longrightarrow> takeWhile P (xs @ c # z) = takeWhile P xs \<and>
               dropWhile P (xs @ c # z) = dropWhile P xs @ c # z"
  by (induction xs) simp_all

lemma CNAME_rest:
  assumes "ignore s = w @ c # z" "w \<noteq> []" "list_all ident_char w" "\<not> ident_char c"
    "CNAME s = Some (u, r')"
  shows "\<exists>w'. r' = w' @ c # z \<and> list_all ident_char w' \<and> (w' = [] \<or> \<not> cname_char (hd w'))"
proof -
  obtain a as where w: "w = a # as" using assms(2) by (cases w) auto
  have nc: "\<not> cname_char c" using assms(4) cname_ident(1) by blast
  have "r' = dropWhile cname_char (as @ c # z)"
    using assms(1,5) w by (auto simp: CNAME_def scan_def split: if_splits)
  then have r: "r' = dropWhile cname_char as @ c # z"
    using span_other [of cname_char c as z] nc by simp
  have "list_all ident_char (dropWhile cname_char as)"
    using assms(3) w by (auto simp: list_all_iff dest: set_dropWhileD)
  moreover have "dropWhile cname_char as = [] \<or> \<not> cname_char (hd (dropWhile cname_char as))"
    using hd_dropWhile [of cname_char as] by blast
  ultimately show ?thesis using r by blast
qed

lemma word_then_keyword:
  assumes "list_all ident_char w'" "w' \<noteq> []" "hd k \<notin> set w'" "k \<noteq> []"
    "\<And>c. ident_char c \<Longrightarrow> c \<noteq> hd k"
  shows "keyword k (w' @ r) = None"
proof -
  obtain a as where w: "w' = a # as" using assms(2) by (cases w') auto
  have "ident_char a" using assms(1) w by simp
  then have "ignore (w' @ r) = a # as @ r" "a \<noteq> hd k"
    using ident_plain [of a] assms(5) w by auto
  then show ?thesis using assms(4) by (intro keyword_other [of _ a "as @ r"]) auto
qed

lemma no_assign_after_word:
  assumes "ignore s = w @ c # z" "w \<noteq> []" "list_all ident_char w" "\<not> ident_char c"
    "keyword ''='' (c # z) = None" "CNAME s = Some (u, r')"
  shows "keyword ''='' r' = None"
proof -
  from CNAME_rest [OF assms(1-4) assms(6)] obtain w' where
    w': "r' = w' @ c # z" "list_all ident_char w'" by blast
  show ?thesis
  proof (cases "w' = []")
    case True
    then show ?thesis using w' assms(5) by simp
  next
    case False
    then obtain a as where a: "w' = a # as" by (cases w') auto
    then have "ident_char a" using w'(2) by simp
    then have "ignore r' = a # as @ c # z" "a \<noteq> CHR ''=''"
      using ident_plain [of a] a w'(1) by auto
    then show ?thesis by (intro keyword_other [of _ a "as @ c # z"]) auto
  qed
qed

lemma idents_stop_at_colon:
  assumes "list_all ident_char w'" "idents_upto n (w' @ CHR '':'' # z) = (xs, r'')"
  shows "keyword '';'' r'' = None"
proof -
  have colon: "keyword '';'' (CHR '':'' # z) = None"
    by (simp add: keyword_def WS_def)
  have whole: "keyword '';'' (w' @ CHR '':'' # z) = None"
  proof (cases w')
    case Nil
    then show ?thesis using colon by simp
  next
    case (Cons a as)
    then have "ident_char a" using assms(1) by simp
    then have "ignore (w' @ CHR '':'' # z) = a # as @ CHR '':'' # z" "a \<noteq> CHR '';''"
      using ident_plain [of a] Cons by auto
    then show ?thesis by (intro keyword_other [of _ a "as @ CHR '':'' # z"]) auto
  qed
  have nocolon: "IDENT (CHR '':'' # z) = None"
    by (simp add: IDENT_def scan_def WS_def ident_start_def LETTER_def)
  then have stop: "idents_upto m (CHR '':'' # z) = ([], CHR '':'' # z)" for m
    by (cases m) simp_all
  show ?thesis
  proof (cases n)
    case 0
    then show ?thesis using assms(2) whole by simp
  next
    case (Suc m)
    show ?thesis
    proof (cases "IDENT (w' @ CHR '':'' # z)")
      case None
      then show ?thesis using assms(2) whole Suc by simp
    next
      case (Some xr)
      obtain x r1 where xr: "xr = (x, r1)" by (cases xr)
      have ne: "w' \<noteq> []" using Some nocolon by (cases w') auto
      then obtain a as where a: "w' = a # as" by (cases w') auto
      have "ident_char a" "list_all ident_char as" using assms(1) a by simp_all
      then have ig: "ignore (w' @ CHR '':'' # z) = a # as @ CHR '':'' # z"
        using ident_plain [of a] a by auto
      have "takeWhile ident_char (as @ CHR '':'' # z) = as \<and>
            dropWhile ident_char (as @ CHR '':'' # z) = CHR '':'' # z"
        using \<open>list_all ident_char as\<close> by (intro takeWhile_all) (simp_all add: punct)
      then have "r1 = CHR '':'' # z"
        using Some xr ig by (auto simp: IDENT_def scan_def split: if_splits)
      then show ?thesis using assms(2) Suc Some xr stop [of m] colon by auto
    qed
  qed
qed

lemma typed_not_eop:
  assumes "ignore s = w @ CHR '':'' # z" "ident_ok w"
  shows "p_eop s = None"
proof (cases "CNAME s")
  case None
  then show ?thesis by (simp add: p_eop_def)
next
  case (Some ur)
  obtain u r' where ur: "ur = (u, r')" by (cases ur)
  have w: "w \<noteq> []" "list_all ident_char w"
    using assms(2) cname_ident(3) by (cases w; auto simp: ident_ok_def list_all_iff)+
  from CNAME_rest [OF assms(1) w punct(2)] Some ur obtain w' where
    w': "r' = w' @ CHR '':'' # z" "list_all ident_char w'" by blast
  obtain xs r'' where i: "idents r' = (xs, r'')" by (cases "idents r'")
  then have "keyword '';'' r'' = None"
    using idents_stop_at_colon [OF w'(2), of "length r'" z xs r''] w'(1)
    by (simp add: idents_def)
  then show ?thesis using Some ur i by (simp add: p_eop_def)
qed

text \<open>An operation name that reads as the keyword \<^verbatim>\<open>const\<close> followed at once by a
  literal, such as \<^verbatim>\<open>const4\<close> or \<^verbatim>\<open>consttrue\<close>.\<close>

definition const_lit :: "string \<Rightarrow> bool" where
  "const_lit opn \<longleftrightarrow>
     take 5 opn = ''const'' \<and>
     (drop 5 opn = ''true'' \<or> drop 5 opn = ''false'' \<or>
      (drop 5 opn \<noteq> [] \<and> list_all DIGIT (drop 5 opn)))"

lemma keyword_SomeD: "keyword k s = Some r \<Longrightarrow> ignore s = k @ r"
  by (auto simp: keyword_def prefix_def split: if_splits)

lemma prefix_word: "prefix k (w @ c # z) \<Longrightarrow> c \<notin> set k \<Longrightarrow> prefix k w"
  by (auto simp: prefix_append prefix_Cons)

lemma cname_plain: "cname_char c \<Longrightarrow> \<not> WS c \<and> c \<noteq> CHR ''#'' \<and> c \<noteq> CHR '';'' \<and>
    c \<noteq> CHR ''+'' \<and> c \<noteq> CHR ''-'' \<and> c \<noteq> CHR '' ''"
  using ident_plain [of c] cname_ident(1) [of c]
  unfolding cname_char_def LETTER_def DIGIT_def by auto

lemma lit_consumes:
  assumes "list_all cname_char w" "w \<noteq> []" "p_lit (w @ CHR '' '' # z) = Some (v, r6)"
  shows "\<exists>w1 w2. w = w1 @ w2 \<and> r6 = w2 @ CHR '' '' # z \<and>
           (w1 = ''true'' \<or> w1 = ''false'' \<or> (w1 \<noteq> [] \<and> list_all DIGIT w1))"
proof -
  obtain a as where w: "w = a # as" using assms(2) by (cases w) auto
  have a: "cname_char a" using assms(1) w by simp
  have ig: "ignore (w @ CHR '' '' # z) = a # as @ CHR '' '' # z"
    using cname_plain [OF a] w by simp
  have nd: "\<not> DIGIT (CHR '' '')" by (simp add: DIGIT_def)
  show ?thesis
  proof (cases "SIGNED_INT (w @ CHR '' '' # z)")
    case (Some nr)
    then have d: "DIGIT a" and r: "r6 = dropWhile DIGIT (as @ CHR '' '' # z)"
      using ig cname_plain [OF a] assms(3)
      by (auto simp: SIGNED_INT_def p_lit_def split: if_splits)
    have r6: "r6 = dropWhile DIGIT as @ CHR '' '' # z"
      using r span_other [of DIGIT "CHR '' ''" as z] nd by simp
    have "w = (a # takeWhile DIGIT as) @ dropWhile DIGIT as" using w by simp
    moreover have "list_all DIGIT (a # takeWhile DIGIT as)"
      using d by (auto simp: list_all_iff dest: set_takeWhileD)
    ultimately show ?thesis using r6 by blast
  next
    case None
    from None assms(3) obtain b where bb: "BOOL (w @ CHR '' '' # z) = Some (b, r6)"
      by (auto simp: p_lit_def split: option.splits)
    then obtain k where k: "k = ''true'' \<or> k = ''false''"
        "keyword k (w @ CHR '' '' # z) = Some r6"
      by (auto simp: BOOL_def split: option.splits)
    then have e: "w @ CHR '' '' # z = k @ r6"
      using keyword_SomeD [OF k(2)] ig w by simp
    then have p: "prefix k (w @ CHR '' '' # z)" by (simp add: prefix_def)
    have "CHR '' '' \<notin> set k" using k(1) by auto
    with prefix_word [OF p] have "prefix k w" by blast
    then obtain w2 where w2: "w = k @ w2" by (auto simp: prefix_def)
    then have "r6 = w2 @ CHR '' '' # z" using e by simp
    then show ?thesis using w2 k(1) by blast
  qed
qed

lemma vop_not_const:
  assumes "ignore s = d @ '': '' @ t @ '' = '' @ opn @ '' '' @ join '' '' as @ '';'' @ r"
    "ident_ok d" "cname_ok t" "cname_ok opn" "list_all ident_ok as"
    "opn \<noteq> ''const''" "\<not> (as = [] \<and> const_lit opn)"
  shows "p_const s = None"
proof (rule ccontr)
  assume "p_const s \<noteq> None"
  note p = typed_prefix [OF assms(1,2,3)]
  let ?J = "'' '' @ join '' '' as @ '';'' @ r"
  from \<open>p_const s \<noteq> None\<close> obtain r5 v r6 r7 where
    k: "keyword ''const'' ('' '' @ opn @ ?J) = Some r5" and
    l: "p_lit r5 = Some (v, r6)" and
    e: "keyword '';'' r6 = Some r7"
    unfolding p_const_def using p by (auto split: Option.bind_splits)
  have ig: "ignore ('' '' @ opn @ ?J) = opn @ ?J"
    using assms(4) by (simp add: ws_chars ignore_word)
  then have e5: "opn @ ?J = ''const'' @ r5"
    using keyword_SomeD [OF k] by simp
  then have pre: "prefix ''const'' (opn @ CHR '' '' # join '' '' as @ '';'' @ r)"
    by (simp add: prefix_def)
  have "prefix ''const'' opn" using prefix_word [OF pre] by simp
  then obtain w where w: "opn = ''const'' @ w" by (auto simp: prefix_def)
  have wne: "w \<noteq> []" using w assms(6) by auto
  have wc: "list_all cname_char w" using assms(4) w by (simp add: cname_ok_def)
  have "r5 = w @ CHR '' '' # join '' '' as @ '';'' @ r" using e5 w by simp
  from lit_consumes [OF wc wne l [unfolded this]] obtain w1 w2 where
    s: "w = w1 @ w2" "r6 = w2 @ CHR '' '' # join '' '' as @ '';'' @ r"
       "w1 = ''true'' \<or> w1 = ''false'' \<or> (w1 \<noteq> [] \<and> list_all DIGIT w1)" by blast
  have "w2 = []"
  proof (rule ccontr)
    assume "w2 \<noteq> []"
    then obtain a as' where a: "w2 = a # as'" by (cases w2) auto
    then have "cname_char a" using wc s(1) by simp
    then have "ignore r6 = a # as' @ CHR '' '' # join '' '' as @ '';'' @ r" "a \<noteq> CHR '';''"
      using cname_plain [of a] a s(2) by auto
    then have "keyword '';'' r6 = None" by (intro keyword_other [of _ a]) auto
    then show False using e by simp
  qed
  then have cl: "const_lit opn" using s(1,3) w by (auto simp: const_lit_def)
  have "as = []"
  proof (rule ccontr)
    assume ne: "as \<noteq> []"
    from after_args [OF assms(5), of r] obtain c z where
      c: "ignore ?J = c # z" "c = CHR '';'' \<or> ident_start c" by blast
    obtain a as' where "as = a # as'" using ne by (cases as) auto
    then obtain c' cs where a: "a = c' # cs" "ident_start c'"
      using assms(5) by (cases a) (auto simp: ident_ok_def)
    have "\<exists>z. join '' '' as = c' # z" using \<open>as = a # as'\<close> a by (cases as') simp_all
    then obtain z' where "join '' '' as = c' # z'" by blast
    then have "ignore ?J = c' # z' @ '';'' @ r"
      using start_plain(2) [OF a(2)] by (simp add: ws_chars)
    moreover have "c' \<noteq> CHR '';''" using a(2) ident_plain [of c'] cname_ident(3) by blast
    ultimately have "keyword '';'' ?J = None" by (intro keyword_other [of _ c']) auto
    then show False using e s(2) \<open>w2 = []\<close> by simp
  qed
  then show False using cl assms(7) by simp
qed

lemma label_not_typed:
  assumes "ignore s = l @ '':'' @ r" "ident_ok l"
    "\<forall>t r'. p_type r = Some (t, r') \<longrightarrow> keyword ''='' r' = None"
  shows "p_const s = None" "p_vop s = None"
proof -
  have "IDENT s = Some (l, '':'' @ r)"
    using assms(1,2) by (intro IDENT_exact) (simp_all add: punct)
  moreover have "keyword '':'' ('':'' @ r) = Some r" by (simp add: keyword_def WS_def)
  ultimately show "p_const s = None" "p_vop s = None"
    using assms(3) by (auto simp: p_const_def p_vop_def split: Option.bind_splits)
qed

subsection \<open>Programs that print and parse back\<close>

text \<open>
  The items and functions the round trip is about: the names are tokens of the grammar
  (\<^verbatim>\<open>IDENT\<close> for destinations, arguments and labels, \<^verbatim>\<open>CNAME\<close> for types, operations
  and function names), no operation is named \<^verbatim>\<open>const\<close>, a value operation without
  arguments is not named \<^verbatim>\<open>const\<close> followed by a literal, no function is nested, and a
  function has no arguments, no return type and at least one item.
\<close>

fun wf_item :: "item \<Rightarrow> bool" where
  "wf_item (Const d t v) \<longleftrightarrow> ident_ok d \<and> cname_ok t"
| "wf_item (ValueOp d t opn as) \<longleftrightarrow>
     ident_ok d \<and> cname_ok t \<and> cname_ok opn \<and> list_all ident_ok as \<and>
     opn \<noteq> ''const'' \<and> \<not> (as = [] \<and> const_lit opn)"
| "wf_item (EffectOp opn as) \<longleftrightarrow> cname_ok opn \<and> list_all ident_ok as \<and> opn \<noteq> ''const''"
| "wf_item (Label l) \<longleftrightarrow> ident_ok l"
| "wf_item (FuncItem f) \<longleftrightarrow> False"

definition wf_func :: "func \<Rightarrow> bool" where
  "wf_func f \<longleftrightarrow>
     cname_ok (name f) \<and> args f = [] \<and> ftype f = None \<and> instrs f \<noteq> [] \<and>
     list_all wf_item (instrs f)"

definition body_text :: "item list \<Rightarrow> string" where
  "body_text is = concat (map (\<lambda>i. item_line i @ [CHR 0x0A]) is)"

definition func_text :: "func \<Rightarrow> string" where
  "func_text f = name f @ '' {'' @ [CHR 0x0A] @ body_text (instrs f) @ ''}'' @ [CHR 0x0A]"

definition prog_text :: "func list \<Rightarrow> string" where
  "prog_text fs = concat (map func_text fs)"

definition func_tree :: "func \<Rightarrow> tree" where
  "func_tree f = Tree ''func'' (Token ''CNAME'' (name f) # map item_tree (instrs f))"

lemma ident_ok_chars: "ident_ok w \<Longrightarrow> w \<noteq> [] \<and> list_all ident_char w \<and> ident_start (hd w)"
  using cname_ident(3) by (cases w) (auto simp: ident_ok_def list_all_iff)

lemma cname_ok_ident: "cname_ok w \<Longrightarrow> ident_ok w"
  using cname_ident by (auto simp: cname_ok_def ident_ok_def list_all_iff)

lemma item_start:
  assumes "wf_item i"
  shows "\<exists>w c z. ignore (CHR 0x0A # item_line i @ CHR 0x0A # T) = w @ c # z \<and> ident_ok w \<and>
                 \<not> ident_char c \<and> keyword ''='' (c # z) = None"
proof (cases i)
  case (Const d t v)
  then have "ignore (CHR 0x0A # item_line i @ CHR 0x0A # T) =
      d @ CHR '':'' # ('' '' @ t @ '' = const '' @ str_lower v @ '';'' @ CHR 0x0A # T)"
    using assms by (simp add: ws_chars ignore_word)
  moreover have "keyword ''='' (CHR '':'' # z) = None" for z by (simp add: keyword_def WS_def)
  ultimately show ?thesis using assms Const punct(2) by (metis wf_item.simps(1))
next
  case (ValueOp d t opn as)
  then have "ignore (CHR 0x0A # item_line i @ CHR 0x0A # T) =
      d @ CHR '':'' # ('' '' @ t @ '' = '' @ opn @ '' '' @ join '' '' as @ '';'' @ CHR 0x0A # T)"
    using assms by (simp add: ws_chars ignore_word)
  moreover have "keyword ''='' (CHR '':'' # z) = None" for z by (simp add: keyword_def WS_def)
  ultimately show ?thesis using assms ValueOp punct(2) by (metis wf_item.simps(2))
next
  case (EffectOp opn as)
  then have "ignore (CHR 0x0A # item_line i @ CHR 0x0A # T) =
      opn @ CHR '' '' # (join '' '' as @ '';'' @ CHR 0x0A # T)"
    using assms by (simp add: ws_chars ignore_word)
  moreover have "keyword ''='' (CHR '' '' # join '' '' as @ '';'' @ CHR 0x0A # T) = None"
    using after_args_keyword(2) [of as "CHR 0x0A # T"] assms EffectOp by simp
  ultimately show ?thesis using assms EffectOp punct(1) cname_ok_ident
    by (metis wf_item.simps(3))
next
  case (Label l)
  then have "ignore (CHR 0x0A # item_line i @ CHR 0x0A # T) = l @ CHR '':'' # (CHR 0x0A # T)"
    using assms by (simp add: ws_chars ignore_word)
  moreover have "keyword ''='' (CHR '':'' # z) = None" for z by (simp add: keyword_def WS_def)
  ultimately show ?thesis using assms Label punct(2) by (metis wf_item.simps(4))
next
  case (FuncItem f)
  then show ?thesis using assms by simp
qed

lemma item_not_close:
  assumes "wf_item i"
  shows "keyword ''}'' (CHR 0x0A # item_line i @ CHR 0x0A # T) = None"
proof -
  from item_start [OF assms, of T] obtain w c z where
    w: "ignore (CHR 0x0A # item_line i @ CHR 0x0A # T) = w @ c # z" "ident_ok w" by blast
  then obtain a as where a: "w = a # as" "ident_char a"
    using ident_ok_chars [OF w(2)] by (cases w) auto
  then have "a \<noteq> CHR ''}''" using ident_plain by blast
  then show ?thesis using w(1) a(1) by (intro keyword_other [of _ a "as @ c # z"]) auto
qed

lemma body_no_assign:
  assumes "list_all wf_item is"
  shows "\<forall>t r'. p_type (CHR 0x0A # body_text is @ ''}'' @ X) = Some (t, r') \<longrightarrow>
                keyword ''='' r' = None"
proof (cases "is")
  case Nil
  have "CNAME (CHR 0x0A # ''}'' @ X) = None"
    unfolding CNAME_def
    by (rule scan_other [of _ "CHR ''}''" X])
       (simp_all add: ws_chars WS_def cname_start_def LETTER_def)
  then show ?thesis using Nil by (simp add: body_text_def p_type_def)
next
  case (Cons i rest)
  let ?T = "body_text rest @ ''}'' @ X"
  have s: "CHR 0x0A # body_text is @ ''}'' @ X = CHR 0x0A # item_line i @ CHR 0x0A # ?T"
    using Cons by (simp add: body_text_def)
  from item_start [of i ?T] assms Cons obtain w c z where
    w: "ignore (CHR 0x0A # item_line i @ CHR 0x0A # ?T) = w @ c # z" "ident_ok w"
       "\<not> ident_char c" "keyword ''='' (c # z) = None" by auto
  show ?thesis
  proof (intro allI impI)
    fix t r'
    assume "p_type (CHR 0x0A # body_text is @ ''}'' @ X) = Some (t, r')"
    then obtain u where "CNAME (CHR 0x0A # item_line i @ CHR 0x0A # ?T) = Some (u, r')"
      unfolding s by (auto simp: p_type_def split: option.splits)
    then show "keyword ''='' r' = None"
      using no_assign_after_word [OF w(1) _ _ w(3,4)] ident_ok_chars [OF w(2)] by blast
  qed
qed

lemma p_instr_first:
  assumes "wf_item i"
    "\<forall>t r'. p_type (CHR 0x0A # T) = Some (t, r') \<longrightarrow> keyword ''='' r' = None"
  shows "\<exists>L. p_instr (CHR 0x0A # item_line i @ CHR 0x0A # T) = (item_tree i, CHR 0x0A # T) # L"
proof (cases i)
  case (Const d t v)
  let ?s = "CHR 0x0A # item_line i @ CHR 0x0A # T"
  have "ignore ?s = d @ '': '' @ t @ '' = const '' @ str_lower v @ '';'' @ CHR 0x0A # T"
    using assms(1) Const by (simp add: ws_chars ignore_word)
  then have "p_const ?s = Some (item_tree i, CHR 0x0A # T)"
    using assms(1) Const p_const_printed by simp
  then show ?thesis by (subst p_instr.simps) (simp add: alt_def)
next
  case (ValueOp d t opn as)
  let ?s = "CHR 0x0A # item_line i @ CHR 0x0A # T"
  have ig: "ignore ?s =
      d @ '': '' @ t @ '' = '' @ opn @ '' '' @ join '' '' as @ '';'' @ CHR 0x0A # T"
    using assms(1) ValueOp by (simp add: ws_chars ignore_word)
  have "p_const ?s = None" using vop_not_const [OF ig] assms(1) ValueOp by simp
  moreover have "p_vop ?s = Some (item_tree i, CHR 0x0A # T)"
    using p_vop_printed [OF ig] assms(1) ValueOp by simp
  ultimately show ?thesis by (subst p_instr.simps) (simp add: alt_def)
next
  case (EffectOp opn as)
  let ?s = "CHR 0x0A # item_line i @ CHR 0x0A # T"
  have ig: "ignore ?s = opn @ '' '' @ join '' '' as @ '';'' @ CHR 0x0A # T"
    using assms(1) EffectOp by (simp add: ws_chars ignore_word)
  have "p_const ?s = None" "p_vop ?s = None"
    using eop_not_typed [OF ig] assms(1) EffectOp by simp_all
  moreover have "p_eop ?s = Some (item_tree i, CHR 0x0A # T)"
    using p_eop_printed [OF ig] assms(1) EffectOp by simp
  ultimately show ?thesis by (subst p_instr.simps) (simp add: alt_def)
next
  case (Label l)
  let ?s = "CHR 0x0A # item_line i @ CHR 0x0A # T"
  have ig: "ignore ?s = l @ '':'' @ CHR 0x0A # T"
    using assms(1) Label by (simp add: ws_chars ignore_word)
  have "p_const ?s = None" "p_vop ?s = None"
    using label_not_typed [OF ig] assms Label by simp_all
  moreover have "p_eop ?s = None"
    using typed_not_eop [of ?s l "CHR 0x0A # T"] ig assms(1) Label by simp
  moreover have "p_label ?s = Some (item_tree i, CHR 0x0A # T)"
    using p_label_printed [OF ig] assms(1) Label by simp
  ultimately show ?thesis by (subst p_instr.simps) (simp add: alt_def)
next
  case (FuncItem f)
  then show ?thesis using assms(1) by simp
qed

lemma p_instrs_printed:
  assumes "list_all wf_item is"
  shows "\<exists>F G. p_instrs (CHR 0x0A # body_text is @ ''}'' @ X) =
                 F @ (map item_tree is, CHR 0x0A # ''}'' @ X) # G \<and>
               (\<forall>(ts, r) \<in> set F. keyword ''}'' r = None)"
  using assms
proof (induction "is")
  case Nil
  let ?G = "concat (map (\<lambda>(i, r). if length r < length (CHR 0x0A # ''}'' @ X)
                             then map (\<lambda>(is, r'). (i # is, r')) (p_instrs r) else [])
                 (p_instr (CHR 0x0A # ''}'' @ X)))"
  have "p_instrs (CHR 0x0A # ''}'' @ X) = ([], CHR 0x0A # ''}'' @ X) # ?G"
    by (subst p_instrs.simps) (rule refl)
  then have "p_instrs (CHR 0x0A # body_text [] @ ''}'' @ X) =
      [] @ (map item_tree [], CHR 0x0A # ''}'' @ X) # ?G \<and>
      (\<forall>(ts, r) \<in> set []. keyword ''}'' r = None)"
    by (simp add: body_text_def)
  then show ?case by (intro exI [of _ "[]"] exI [of _ ?G])
next
  case (Cons i rest)
  let ?T = "body_text rest @ ''}'' @ X"
  let ?s = "CHR 0x0A # item_line i @ CHR 0x0A # ?T"
  have s: "CHR 0x0A # body_text (i # rest) @ ''}'' @ X = ?s" by (simp add: body_text_def)
  have wf: "wf_item i" "list_all wf_item rest" using Cons.prems by simp_all
  from p_instr_first [OF wf(1) body_no_assign [OF wf(2), of X]] obtain L where
    L: "p_instr ?s = (item_tree i, CHR 0x0A # ?T) # L" by blast
  from Cons.IH [OF wf(2)] obtain F G where
    FG: "p_instrs (CHR 0x0A # ?T) = F @ (map item_tree rest, CHR 0x0A # ''}'' @ X) # G"
        "\<forall>(ts, r) \<in> set F. keyword ''}'' r = None" by blast
  let ?cons = "\<lambda>(is, r'). (item_tree i # is, r')"
  let ?cont = "\<lambda>(i, r). if length r < length ?s
                             then map (\<lambda>(is, r'). (i # is, r')) (p_instrs r) else []"
  have "p_instrs ?s = ([], ?s) # concat (map ?cont (p_instr ?s))"
    by (subst p_instrs.simps) simp
  also have "concat (map ?cont (p_instr ?s)) =
      map ?cons (p_instrs (CHR 0x0A # ?T)) @ concat (map ?cont L)"
    unfolding L by simp
  finally have "p_instrs ?s =
      (([], ?s) # map ?cons F) @
      (map item_tree (i # rest), CHR 0x0A # ''}'' @ X) #
      (map ?cons G @ concat (map ?cont L))"
    unfolding FG(1) by simp
  moreover have "\<forall>(ts, r) \<in> set (([], ?s) # map ?cons F). keyword ''}'' r = None"
    using FG(2) item_not_close [OF wf(1), of ?T] by auto
  ultimately show ?case unfolding s by blast
qed

lemma args_upto_none: "p_arg s = None \<Longrightarrow> args_upto n s = ([], s)"
  by (cases n) simp_all

lemma p_header_printed:
  assumes "ignore s = n @ '' {'' @ r" "cname_ok n"
  shows "p_header s = Some ([Token ''CNAME'' n], r)"
proof -
  have c: "CNAME s = Some (n, '' {'' @ r)"
    using assms not_cname_space by (intro CNAME_exact) simp_all
  have "IDENT ('' {'' @ r) = None"
    by (simp add: IDENT_def scan_def ws_chars WS_def ident_start_def LETTER_def)
  moreover have "keyword ''('' ('' {'' @ r) = None"
    by (simp add: keyword_def ws_chars WS_def)
  ultimately have "p_arg ('' {'' @ r) = None" by (simp add: p_arg_def)
  then have a: "args_upto k ('' {'' @ r) = ([], '' {'' @ r)" for k
    by (rule args_upto_none)
  have b: "keyword ''{'' ('' {'' @ r) = Some r" by (simp add: keyword_def ws_chars WS_def)
  show ?thesis unfolding p_header_def using c a b by simp
qed

lemma p_func_printed:
  assumes "wf_func f" "ignore s = func_text f @ X"
  shows "\<exists>G. p_func s = (func_tree f, CHR 0x0A # X) # G"
proof -
  let ?b = "CHR 0x0A # body_text (instrs f) @ ''}'' @ CHR 0x0A # X"
  have "ignore s = name f @ '' {'' @ ?b" using assms(2) by (simp add: func_text_def)
  then have h: "p_header s = Some ([Token ''CNAME'' (name f)], ?b)"
    using assms(1) by (intro p_header_printed) (simp_all add: wf_func_def)
  from p_instrs_printed [of "instrs f" "CHR 0x0A # X"] assms(1) obtain F G where
    FG: "p_instrs ?b = F @ (map item_tree (instrs f), CHR 0x0A # ''}'' @ CHR 0x0A # X) # G"
        "\<forall>(ts, r) \<in> set F. keyword ''}'' r = None" by (auto simp: wf_func_def)
  let ?g = "\<lambda>(is, r'). case keyword ''}'' r' of None \<Rightarrow> []
              | Some r'' \<Rightarrow> [(Tree ''func'' ([Token ''CNAME'' (name f)] @ is), r'')]"
  have "concat (map ?g F) = []" using FG(2) by (induction F) auto
  moreover have "keyword ''}'' (CHR 0x0A # ''}'' @ CHR 0x0A # X) = Some (CHR 0x0A # X)"
    by (simp add: keyword_def ws_chars WS_def)
  ultimately have "concat (map ?g (p_instrs ?b)) =
      (func_tree f, CHR 0x0A # X) # concat (map ?g G)"
    unfolding FG(1) by (simp add: func_tree_def)
  then show ?thesis using h by (subst p_func.simps) simp
qed

lemma ignore_prog_text: "list_all wf_func fs \<Longrightarrow> ignore (prog_text fs) = prog_text fs"
  by (cases fs) (auto simp: prog_text_def func_text_def wf_func_def ignore_word)

lemma p_funcs_printed:
  assumes "list_all wf_func fs" "ignore s = prog_text fs"
  shows "\<exists>F R G. p_funcs s = F @ (map func_tree fs, R) # G \<and> ignore R = [] \<and>
                 (\<forall>(ts, r) \<in> set F. ignore r \<noteq> [])"
  using assms
proof (induction fs arbitrary: s)
  case Nil
  let ?G = "concat (map (\<lambda>(f, r). if length r < length s
                             then map (\<lambda>(fs, r'). (f # fs, r')) (p_funcs r) else [])
                 (p_func s))"
  have "p_funcs s = ([], s) # ?G"
    by (subst p_funcs.simps) (rule refl)
  moreover have "ignore s = []" using Nil by (simp add: prog_text_def)
  ultimately have "p_funcs s = [] @ (map func_tree [], s) # ?G \<and> ignore s = [] \<and>
      (\<forall>(ts, r) \<in> set []. ignore r \<noteq> [])"
    by simp
  then show ?case by (intro exI [of _ "[]"] exI [of _ s] exI [of _ ?G])
next
  case (Cons f rest)
  let ?r = "CHR 0x0A # prog_text rest"
  have wf: "wf_func f" "list_all wf_func rest" using Cons.prems(1) by simp_all
  have ig: "ignore s = func_text f @ prog_text rest"
    using Cons.prems(2) by (simp add: prog_text_def)
  from p_func_printed [OF wf(1) ig] obtain L where
    L: "p_func s = (func_tree f, ?r) # L" by blast
  have "ignore ?r = prog_text rest" using ignore_prog_text [OF wf(2)] by (simp add: ws_chars)
  from Cons.IH [OF wf(2) this] obtain F R G where
    FG: "p_funcs ?r = F @ (map func_tree rest, R) # G" "ignore R = []"
        "\<forall>(ts, r) \<in> set F. ignore r \<noteq> []" by blast
  have "length (func_text f @ prog_text rest) \<le> length s"
    using ignore_length(1) [of s] ig by simp
  then have len: "length ?r < length s" by (simp add: func_text_def)
  let ?cons = "\<lambda>(fs, r'). (func_tree f # fs, r')"
  let ?cont = "\<lambda>(f, r). if length r < length s
                             then map (\<lambda>(fs, r'). (f # fs, r')) (p_funcs r) else []"
  have "p_funcs s = ([], s) # concat (map ?cont (p_func s))"
    by (subst p_funcs.simps) simp
  also have "concat (map ?cont (p_func s)) = map ?cons (p_funcs ?r) @ concat (map ?cont L)"
    unfolding L using len by simp
  finally have "p_funcs s =
      (([], s) # map ?cons F) @ (map func_tree (f # rest), R) #
      (map ?cons G @ concat (map ?cont L))"
    unfolding FG(1) by simp
  moreover have "ignore s \<noteq> []" using ig by (simp add: func_text_def)
  then have "\<forall>(ts, r) \<in> set (([], s) # map ?cons F). ignore r \<noteq> []"
    using FG(3) by auto
  ultimately show ?case using FG(2) by blast
qed

lemma p_imp_printed:
  assumes "list_all wf_func fs"
  shows "p_imp (prog_text fs) = None"
proof (cases fs)
  case Nil
  then show ?thesis by (simp add: p_imp_def prog_text_def keyword_def)
next
  case (Cons f rest)
  let ?r = "'' {'' @ CHR 0x0A # body_text (instrs f) @ ''}'' @ CHR 0x0A # prog_text rest"
  have n: "cname_ok (name f)" using assms Cons by (simp add: wf_func_def)
  have t: "prog_text fs = name f @ ?r" using Cons by (simp add: prog_text_def func_text_def)
  have ig: "ignore (prog_text fs) = name f @ ?r" unfolding t using n by (rule ignore_word)
  show ?thesis
  proof (cases "keyword ''import'' (prog_text fs)")
    case None
    then show ?thesis by (simp add: p_imp_def)
  next
    case (Some r1)
    then have e: "name f @ ?r = ''import'' @ r1" using keyword_SomeD [OF Some] ig by simp
    then have "prefix ''import'' (name f @ CHR '' '' # CHR ''{'' # CHR 0x0A #
        body_text (instrs f) @ ''}'' @ CHR 0x0A # prog_text rest)"
      by (simp add: prefix_def)
    from prefix_word [OF this] have "prefix ''import'' (name f)" by simp
    then obtain w where w: "name f = ''import'' @ w" by (auto simp: prefix_def)
    then have r1: "r1 = w @ ?r" using e by simp
    have wc: "list_all cname_char w" using n w by (simp add: cname_ok_def)
    have "\<forall>m r2. CNAME r1 = Some (m, r2) \<longrightarrow> keyword '';'' r2 = None"
    proof (intro allI impI)
      fix m r2
      assume c: "CNAME r1 = Some (m, r2)"
      have "w \<noteq> []"
      proof
        assume "w = []"
        then have "CNAME r1 = None"
          unfolding CNAME_def r1
          by (intro scan_other [of _ "CHR ''{''"])
             (simp_all add: ws_chars WS_def cname_start_def LETTER_def)
        then show False using c by simp
      qed
      then obtain a as where a: "w = a # as" by (cases w) auto
      have ca: "cname_char a" "list_all cname_char as" using wc a by simp_all
      have "ignore r1 = a # as @ ?r" using r1 a cname_plain [OF ca(1)] by simp
      moreover have "takeWhile cname_char (as @ ?r) = as \<and> dropWhile cname_char (as @ ?r) = ?r"
        using ca(2) not_cname_space by (intro takeWhile_all) simp_all
      ultimately have "r2 = ?r" using c by (auto simp: CNAME_def scan_def split: if_splits)
      then show "keyword '';'' r2 = None" by (simp add: keyword_def ws_chars WS_def)
    qed
    then show ?thesis using Some by (auto simp: p_imp_def split: Option.bind_splits)
  qed
qed

lemma parses_printed:
  assumes "list_all wf_func fs"
  shows "\<exists>G. parses (prog_text fs) = Tree ''start'' (map func_tree fs) # G"
proof -
  have "imps_upto n (prog_text fs) = ([], prog_text fs)" for n
    using p_imp_printed [OF assms] by (cases n) simp_all
  moreover
  from p_funcs_printed [OF assms ignore_prog_text [OF assms]] obtain F R G where
    FG: "p_funcs (prog_text fs) = F @ (map func_tree fs, R) # G" "ignore R = []"
        "\<forall>(ts, r) \<in> set F. ignore r \<noteq> []" by blast
  let ?h = "\<lambda>(fs, r'). if ignore r' = [] then [Tree ''start'' ([] @ fs)] else []"
  have "concat (map ?h F) = []" using FG(3) by (induction F) auto
  then have "concat (map ?h (p_funcs (prog_text fs))) =
      Tree ''start'' (map func_tree fs) # concat (map ?h G)"
    unfolding FG(1) using FG(2) by simp
  ultimately show ?thesis by (simp add: parses_def)
qed

subsection \<open>The transformer on the trees of printed programs\<close>

lemma transform_item_tree: "wf_item i \<Longrightarrow> transform (item_tree i) = Inr (VInstr i)"
proof (cases i)
  case (Const d t v)
  then show ?thesis
    by (cases v)
       (simp_all add: callback_def t_const_def t_type_def t_int_def t_bool_def pop0_def
          py_int_str_int)
next
  case (ValueOp d t opn as)
  have "collect (map transform (map (Token ''IDENT'') as)) = Inr (map (VToken ''IDENT'') as)"
    by (induction as) simp_all
  moreover have "strs_of (map (VToken ''IDENT'') as) = Inr as" by (induction as) simp_all
  ultimately show ?thesis using ValueOp
    by (simp add: callback_def t_vop_def t_type_def pop0_def)
next
  case (EffectOp opn as)
  have "collect (map transform (map (Token ''IDENT'') as)) = Inr (map (VToken ''IDENT'') as)"
    by (induction as) simp_all
  moreover have "strs_of (map (VToken ''IDENT'') as) = Inr as" by (induction as) simp_all
  ultimately show ?thesis using EffectOp
    by (simp add: callback_def t_eop_def pop0_def)
next
  case (Label l)
  then show ?thesis by (simp add: callback_def t_label_def pop0_def)
next
  case (FuncItem f)
  assume "wf_item i"
  then show ?thesis using FuncItem by simp
qed

lemma collect_item_trees:
  "list_all wf_item is \<Longrightarrow> collect (map transform (map item_tree is)) = Inr (map VInstr is)"
  by (induction "is") (simp_all add: transform_item_tree)

lemma as_items_instrs: "as_items (map VInstr is) = Inr is"
  by (induction "is") simp_all

lemma transform_func_tree:
  assumes "wf_func f"
  shows "transform (func_tree f) = Inr (VFunc f)"
proof -
  obtain i rest where i: "instrs f = i # rest"
    using assms by (cases "instrs f") (auto simp: wf_func_def)
  have c: "collect (map transform (map item_tree (instrs f))) = Inr (map VInstr (instrs f))"
    using assms by (intro collect_item_trees) (simp add: wf_func_def)
  have "pop_args (map VInstr (instrs f)) = Inr ([], map VInstr (instrs f))"
    using i by simp
  moreover have "pop_type (map VInstr (instrs f)) = Inr (None, map VInstr (instrs f))"
    using i by (simp add: pop_type_def)
  moreover have "f = Function (name f) [] None (instrs f)"
    using assms by (cases f) (simp add: wf_func_def)
  ultimately show ?thesis using c as_items_instrs [of "instrs f"]
    by (simp add: func_tree_def callback_def t_func_def pop0_def)
qed

lemma transform_start:
  assumes "list_all wf_func fs"
  shows "transform (Tree ''start'' (map func_tree fs)) =
           Inr (VData \<lparr>prog_imports = None, prog_functions = fs\<rparr>)"
proof -
  have "collect (map transform (map func_tree fs)) = Inr (map VFunc fs)"
    using assms by (induction fs) (simp_all add: transform_func_tree)
  moreover have "pop_tokens (map VFunc fs) = ([], map VFunc fs)" by (cases fs) simp_all
  moreover have "as_funcs (map VFunc fs) = Inr fs" by (induction fs) simp_all
  ultimately show ?thesis by (simp add: callback_def t_start_def)
qed

lemma parse_bril_printed:
  assumes "list_all wf_func fs"
  shows "parse_bril (prog_text fs) = Inr \<lparr>prog_imports = None, prog_functions = fs\<rparr>"
proof -
  from parses_printed [OF assms] obtain G where
    "parses (prog_text fs) = Tree ''start'' (map func_tree fs) # G" by blast
  then have "parse (prog_text fs) = Inr (Tree ''start'' (map func_tree fs))"
    by (simp add: parse_def)
  then show ?thesis using transform_start [OF assms]
    by (simp add: parse_bril_def find_dups_empty)
qed

subsection \<open>The printer on these programs\<close>

lemma print_items_wf:
  "list_all wf_item is \<Longrightarrow> print_items is out = (out @ map item_line is, None)"
proof (induction "is" arbitrary: out)
  case Nil
  then show ?case by simp
next
  case (Cons i rest)
  have "(if has_label i then print_label i out else print_instr i out) =
          (out @ [item_line i], None)"
    using Cons.prems by (cases i) (simp_all add: print_instr_def)
  then show ?case using Cons by simp
qed

lemma text_of_append: "text_of (xs @ ys) = text_of xs @ text_of ys"
  by (simp add: text_of_def)

lemma print_func_wf:
  assumes "wf_func f"
  shows "\<exists>ls. print_func f out = (out @ ls, None) \<and> text_of ls = func_text f"
proof -
  have "print_func f out = (out @ (name f @ '' {'') # map item_line (instrs f) @ [''}''], None)"
    using assms print_items_wf [of "instrs f" "out @ [name f @ '' {'']"]
    by (simp add: print_func_def wf_func_def)
  moreover have "text_of ((name f @ '' {'') # map item_line (instrs f) @ [''}'']) = func_text f"
    by (simp add: text_of_def func_text_def body_text_def comp_def)
  ultimately show ?thesis by blast
qed

lemma print_funcs_wf:
  "list_all wf_func fs \<Longrightarrow>
     \<exists>ls. print_funcs fs out = (out @ ls, None) \<and> text_of ls = prog_text fs"
proof (induction fs arbitrary: out)
  case Nil
  then show ?case by (simp add: text_of_def prog_text_def)
next
  case (Cons f rest)
  from print_func_wf [of f out] Cons.prems obtain l1 where
    l1: "print_func f out = (out @ l1, None)" "text_of l1 = func_text f" by auto
  from Cons.IH [of "out @ l1"] Cons.prems obtain l2 where
    l2: "print_funcs rest (out @ l1) = ((out @ l1) @ l2, None)" "text_of l2 = prog_text rest"
    by auto
  have "print_funcs (f # rest) out = (out @ (l1 @ l2), None)" using l1(1) l2(1) by simp
  moreover have "text_of (l1 @ l2) = prog_text (f # rest)"
    using l1(2) l2(2) by (simp add: text_of_append prog_text_def)
  ultimately show ?case by blast
qed

text \<open>
  Claim C6, amended. Let every function of a program be well-formed: no arguments, no
  return type, at least one item, no nested function, names that are tokens of the
  grammar, no operation named \<^verbatim>\<open>const\<close>, and no value operation without arguments
  whose name is \<^verbatim>\<open>const\<close> followed by a literal. Then the pretty-printer prints the
  program without raising, and \<^verbatim>\<open>parse_bril\<close> on the printed text returns a program
  without imports whose functions are the same: the same names and the same \<^verbatim>\<open>instrs\<close>.
\<close>

theorem printed_text_parses_back:
  assumes "list_all wf_func (prog_functions p)"
  shows "\<exists>out. print_prog p = (out, None) \<and>
           parse_bril (text_of out) =
             Inr \<lparr>prog_imports = None, prog_functions = prog_functions p\<rparr>"
proof -
  from print_funcs_wf [OF assms, of "[]"] obtain ls where
    "print_funcs (prog_functions p) [] = (ls, None)" "text_of ls = prog_text (prog_functions p)"
    by auto
  then show ?thesis using parse_bril_printed [OF assms] by (simp add: print_prog_def)
qed

definition sample :: func where
  "sample = Function ''main'' [] None
     [Const ''v'' ''int'' (IntLit 4), ValueOp ''w'' ''int'' ''add'' [''v'', ''v''],
      Label ''out'', EffectOp ''print'' [''w'']]"

theorem const_operation_not_printed:
  "parse_bril ''main { x: int = const y; }'' =
     Inr \<lparr>prog_imports = None,
          prog_functions = [Function ''main'' [] None [ValueOp ''x'' ''int'' ''const'' [''y'']]]\<rparr> \<and>
   print_prog \<lparr>prog_imports = None,
          prog_functions = [Function ''main'' [] None [ValueOp ''x'' ''int'' ''const'' [''y'']]]\<rparr> =
     ([''main {''], Some (KeyError ''value'')) \<and>
   parse_bril ''main { def inner { x: int = const 1; } }'' =
     Inr \<lparr>prog_imports = None,
          prog_functions = [Function ''main'' [] None
            [FuncItem (Function ''inner'' [] None [Const ''x'' ''int'' (IntLit 1)])]]\<rparr> \<and>
   print_prog \<lparr>prog_imports = None,
          prog_functions = [Function ''main'' [] None
            [FuncItem (Function ''inner'' [] None [Const ''x'' ''int'' (IntLit 1)])]]\<rparr> =
     ([''main {''], Some (KeyError ''op''))"
  by code_simp

theorem printed_text_parses_back_witness:
  "list_all wf_func (prog_functions \<lparr>prog_imports = None, prog_functions = [sample]\<rparr>) \<and>
   (\<exists>out. print_prog \<lparr>prog_imports = None, prog_functions = [sample]\<rparr> = (out, None) \<and>
       parse_bril (text_of out) = Inr \<lparr>prog_imports = None, prog_functions = [sample]\<rparr>)"
proof -
  have "list_all wf_func (prog_functions \<lparr>prog_imports = None, prog_functions = [sample]\<rparr>)"
    by code_simp
  with printed_text_parses_back [of "\<lparr>prog_imports = None, prog_functions = [sample]\<rparr>"]
  show ?thesis by simp
qed

end
